theory Spec2Isabelle
  imports Complex_Main "HOL-Library.Word"
begin

section \<open>The Fibonacci generator\<close>

text \<open>
  \<^verbatim>\<open>uint64_t fibonacci(int num)\<close> of \<^verbatim>\<open>algorithms.c\<close>. The unsigned 64-bit
  variables \<^verbatim>\<open>a\<close>, \<^verbatim>\<open>b\<close> and \<^verbatim>\<open>next\<close> are
  64-bit words, whose addition wraps around. The loop
  \<^verbatim>\<open>for (int i = 2; i <= num; i++) { next = a + b; a = b; b = next; }\<close>
  is the recursion \<open>fib_loop\<close> on the loop variables. The parameter and the loop
  counter are C \<^verbatim>\<open>int\<close>s, modelled as integers: for every \<^verbatim>\<open>num\<close>
  below \<^verbatim>\<open>INT_MAX\<close> the counter stays in range.
\<close>

type_synonym u64 = "64 word"

function fib_loop :: "int \<Rightarrow> int \<Rightarrow> u64 \<Rightarrow> u64 \<Rightarrow> u64" where
  "fib_loop num i a b = (if i \<le> num then fib_loop num (i + 1) b (a + b) else b)"
  by pat_completeness auto
termination
  by (relation "measure (\<lambda>(num, i, a, b). nat (num + 1 - i))") auto

declare fib_loop.simps [simp del]

definition fibonacci :: "int \<Rightarrow> u64" where
  "fibonacci num =
     (if num < 0 then 0
      else if num = 0 then 0
      else if num = 1 then 1
      else fib_loop num 2 0 1)"

text \<open>
  The sequence as the README defines it, on unbounded natural numbers:
  \<open>F 0 = 0\<close>, \<open>F 1 = 1\<close>, \<open>F n = F (n - 1) + F (n - 2)\<close>. It is the reference
  the 64-bit results are compared with.
\<close>

fun fib_spec :: "nat \<Rightarrow> nat" where
  "fib_spec 0 = 0"
| "fib_spec (Suc 0) = 1"
| "fib_spec (Suc (Suc n)) = fib_spec (Suc n) + fib_spec n"

text \<open>\<open>pair_iter k a b\<close> is the value of \<open>b\<close> after \<open>k\<close> rounds of the loop body.\<close>

primrec pair_iter :: "nat \<Rightarrow> u64 \<Rightarrow> u64 \<Rightarrow> u64" where
  "pair_iter 0 a b = b"
| "pair_iter (Suc k) a b = pair_iter k b (a + b)"


section \<open>Single-precision numbers\<close>

text \<open>
  A C \<^verbatim>\<open>float\<close> is an IEEE 754 binary32 number: a finite value, an
  infinity or a NaN. A finite value is carried as the real number it denotes. Every
  operation computes the exact result and rounds it to the nearest binary32 value, ties
  to even (the default rounding mode, with \<^verbatim>\<open>FLT_EVAL_METHOD\<close> 0, as on
  x86-64 with SSE arithmetic). The sign of a zero is not represented: the functions below
  never divide by a negative zero nor print one. The argument of \<open>Finite\<close> ranges over
  all real numbers, of which the binary32 values are those that \<open>rnd32\<close> leaves as
  they are; what is proved for every real argument holds for every \<^verbatim>\<open>float\<close>.
\<close>

datatype f32 = Finite real | PInf | NInf | NaN

text \<open>Rounding a real number to an integer, halfway cases to the even neighbour.\<close>

definition rne :: "real \<Rightarrow> int" where
  "rne y =
     (let f = \<lfloor>y\<rfloor>; r = y - of_int f
      in if r < 1 / 2 then f else if 1 / 2 < r then f + 1 else if even f then f else f + 1)"

text \<open>
  The binary exponent \<open>e\<close> of a magnitude, \<open>2 powi e \<le> x < 2 powi (e + 1)\<close>,
  searched upwards from 0 for \<open>1 \<le> x\<close> and downwards otherwise, and kept within the
  exponent range of binary32: below \<open>2 powi (- 126)\<close> the numbers are subnormal and
  share the exponent \<open>- 126\<close>.
\<close>

function expo_up :: "real \<Rightarrow> int \<Rightarrow> int" where
  "expo_up x e = (if e < 127 \<and> 2 powi (e + 1) \<le> x then expo_up x (e + 1) else e)"
  by pat_completeness auto
termination
  by (relation "measure (\<lambda>(x, e). nat (127 - e))") auto

function expo_down :: "real \<Rightarrow> int \<Rightarrow> int" where
  "expo_down x e = (if - 126 < e \<and> x < 2 powi e then expo_down x (e - 1) else e)"
  by pat_completeness auto
termination
  by (relation "measure (\<lambda>(x, e). nat (e + 126))") auto

declare expo_up.simps [simp del] expo_down.simps [simp del]

definition f32_expo :: "real \<Rightarrow> int" where
  "f32_expo x = (if 1 \<le> \<bar>x\<bar> then expo_up \<bar>x\<bar> 0 else expo_down \<bar>x\<bar> 0)"

text \<open>
  The nearest number with a 24-bit significand at the exponent of \<open>x\<close>; \<open>rnd32\<close>
  turns a result of magnitude \<open>2 ^ 128\<close> or more into an infinity.
\<close>

definition f32_round :: "real \<Rightarrow> real" where
  "f32_round x = (let q = 2 powi (f32_expo x - 23) in of_int (rne (x / q)) * q)"

definition rnd32 :: "real \<Rightarrow> f32" where
  "rnd32 x =
     (let v = f32_round x
      in if 2 ^ 128 \<le> v then PInf else if v \<le> - (2 ^ 128) then NInf else Finite v)"

fun f32_neg :: "f32 \<Rightarrow> f32" where
  "f32_neg (Finite x) = Finite (- x)"
| "f32_neg PInf = NInf"
| "f32_neg NInf = PInf"
| "f32_neg NaN = NaN"

fun f32_add :: "f32 \<Rightarrow> f32 \<Rightarrow> f32" where
  "f32_add (Finite x) (Finite y) = rnd32 (x + y)"
| "f32_add NaN b = NaN"
| "f32_add a NaN = NaN"
| "f32_add PInf NInf = NaN"
| "f32_add NInf PInf = NaN"
| "f32_add PInf b = PInf"
| "f32_add NInf b = NInf"
| "f32_add a PInf = PInf"
| "f32_add a NInf = NInf"

definition f32_sub :: "f32 \<Rightarrow> f32 \<Rightarrow> f32" where
  "f32_sub a b = f32_add a (f32_neg b)"

text \<open>The sign of a product or quotient with an infinite operand.\<close>

definition inf_signed :: "bool \<Rightarrow> f32" where
  "inf_signed negative = (if negative then NInf else PInf)"

fun f32_negative :: "f32 \<Rightarrow> bool" where
  "f32_negative (Finite x) = (x < 0)"
| "f32_negative PInf = False"
| "f32_negative NInf = True"
| "f32_negative NaN = False"

fun f32_mul :: "f32 \<Rightarrow> f32 \<Rightarrow> f32" where
  "f32_mul (Finite x) (Finite y) = rnd32 (x * y)"
| "f32_mul NaN b = NaN"
| "f32_mul a NaN = NaN"
| "f32_mul a b =
     (if a = Finite 0 \<or> b = Finite 0 then NaN
      else inf_signed (f32_negative a \<noteq> f32_negative b))"

fun f32_div :: "f32 \<Rightarrow> f32 \<Rightarrow> f32" where
  "f32_div (Finite x) (Finite y) =
     (if y = 0 then (if x = 0 then NaN else inf_signed (x < 0)) else rnd32 (x / y))"
| "f32_div NaN b = NaN"
| "f32_div a NaN = NaN"
| "f32_div (Finite x) b = Finite 0"
| "f32_div a (Finite y) = inf_signed (f32_negative a \<noteq> (y < 0))"
| "f32_div a b = NaN"

text \<open>The comparisons \<^verbatim>\<open><\<close> and \<^verbatim>\<open><=\<close>: false whenever an operand is a NaN.\<close>

fun f32_lt :: "f32 \<Rightarrow> f32 \<Rightarrow> bool" where
  "f32_lt (Finite x) (Finite y) = (x < y)"
| "f32_lt NaN b = False"
| "f32_lt a NaN = False"
| "f32_lt a NInf = False"
| "f32_lt PInf b = False"
| "f32_lt NInf b = True"
| "f32_lt a PInf = True"

fun f32_le :: "f32 \<Rightarrow> f32 \<Rightarrow> bool" where
  "f32_le (Finite x) (Finite y) = (x \<le> y)"
| "f32_le NaN b = False"
| "f32_le a NaN = False"
| "f32_le NInf b = True"
| "f32_le a PInf = True"
| "f32_le a NInf = False"
| "f32_le PInf b = False"

text \<open>
  Conversions. An integer becomes the nearest \<^verbatim>\<open>float\<close>. A \<^verbatim>\<open>float\<close>
  becomes an \<^verbatim>\<open>int\<close> by discarding the fraction; when the integral part does
  not fit the 32-bit \<^verbatim>\<open>int\<close>, or the operand is not finite, the behaviour
  is undefined in C (6.3.1.4), which the model reports as the error
  \<open>UndefinedConversion\<close>. \<open>OutOfBounds\<close> is an array access outside the array.
\<close>

datatype error = UndefinedConversion | OutOfBounds

definition f32_of_u64 :: "u64 \<Rightarrow> f32" where
  "f32_of_u64 w = rnd32 (real (unat w))"

definition f32_of_int :: "int \<Rightarrow> f32" where
  "f32_of_int i = rnd32 (of_int i)"

definition trunc_real :: "real \<Rightarrow> int" where
  "trunc_real x = (if 0 \<le> x then \<lfloor>x\<rfloor> else \<lceil>x\<rceil>)"

definition in_int_range :: "int \<Rightarrow> bool" where
  "in_int_range i \<longleftrightarrow> - 2147483648 \<le> i \<and> i \<le> 2147483647"

fun f32_to_int :: "f32 \<Rightarrow> error + int" where
  "f32_to_int (Finite x) =
     (if in_int_range (trunc_real x) then Inr (trunc_real x) else Inl UndefinedConversion)"
| "f32_to_int a = Inl UndefinedConversion"

section \<open>The exact converter\<close>

text \<open>
  \<^verbatim>\<open>float basic_miles2km(int miles) { return miles * 1.609344f; }\<close>
  The parameter is an \<^verbatim>\<open>int\<close>: it is converted to \<^verbatim>\<open>float\<close> and
  multiplied by the \<^verbatim>\<open>float\<close> constant nearest to 1.609344.
\<close>

definition basic_miles2km :: "int \<Rightarrow> f32" where
  "basic_miles2km miles = f32_mul (f32_of_int miles) (rnd32 (1609344 / 1000000))"

text \<open>
  Every caller passes a floating-point value (\<^verbatim>\<open>basic_miles2km(miles)\<close> with a
  \<^verbatim>\<open>float\<close> or \<^verbatim>\<open>double\<close> \<^verbatim>\<open>miles\<close>), which C converts to the
  \<^verbatim>\<open>int\<close> parameter first.
\<close>

definition basic_miles2km_of_float :: "f32 \<Rightarrow> error + f32" where
  "basic_miles2km_of_float miles =
     (case f32_to_int miles of Inl e \<Rightarrow> Inl e | Inr i \<Rightarrow> Inr (basic_miles2km i))"

section \<open>Interpolation on a freshly generated sequence\<close>

text \<open>
  The four loop variables of \<^verbatim>\<open>fib_interpolate\<close>. One round of the loop
  \<^verbatim>\<open>while (curr_mile <= miles)\<close> moves the pair on (\<open>walk_next\<close>) and leaves
  the loop when the overflow check \<open>walk_overflow\<close> fires. The comparison converts
  \<^verbatim>\<open>curr_mile\<close> to \<^verbatim>\<open>float\<close>. The loop is a partial function: \<open>None\<close>
  is a run that does not leave the loop.
\<close>

record walk =
  prev_mile :: u64
  prev_km :: u64
  curr_mile :: u64
  curr_km :: u64

definition walk_init :: walk where
  "walk_init = \<lparr>prev_mile = 0, prev_km = 1, curr_mile = 1, curr_km = 2\<rparr>"

definition walk_next :: "walk \<Rightarrow> walk" where
  "walk_next w =
     \<lparr>prev_mile = curr_mile w, prev_km = curr_km w,
      curr_mile = curr_km w, curr_km = curr_mile w + curr_km w\<rparr>"

definition walk_overflow :: "walk \<Rightarrow> bool" where
  "walk_overflow w \<longleftrightarrow> curr_km w < prev_km w \<or> curr_mile w < prev_mile w"

partial_function (option) find_interval :: "f32 \<Rightarrow> walk \<Rightarrow> walk option" where
  "find_interval miles w =
     (if f32_le (f32_of_u64 (curr_mile w)) miles
      then (if walk_overflow (walk_next w) then Some (walk_next w)
            else find_interval miles (walk_next w))
      else Some w)"

definition fib_interpolate :: "f32 \<Rightarrow> (error + f32) option" where
  "fib_interpolate miles =
     (if f32_lt miles (Finite 5) then Some (basic_miles2km_of_float miles)
      else case find_interval miles walk_init of
        None \<Rightarrow> None
      | Some w \<Rightarrow>
          Some (Inr (f32_add (f32_of_u64 (prev_km w))
            (f32_mul (f32_sub miles (f32_of_u64 (prev_mile w)))
               (f32_div (f32_of_u64 (curr_km w - prev_km w))
                  (f32_of_u64 (curr_mile w - prev_mile w)))))))"

section \<open>Interpolation on the cached table\<close>

text \<open>
  The two static variables of \<^verbatim>\<open>fib_cache_convert\<close> are the state that a call
  receives and hands on. The array has \<^verbatim>\<open>MAX_CACHE\<close> elements; an access at any
  other index is the error \<open>OutOfBounds\<close>.
\<close>

definition MAX_CACHE :: int where
  "MAX_CACHE = 94"

record cache_state =
  cache :: "u64 list"
  initialized :: int

definition cache_state_init :: cache_state where
  "cache_state_init = \<lparr>cache = replicate (nat MAX_CACHE) 0, initialized = 0\<rparr>"

definition cache_read :: "u64 list \<Rightarrow> int \<Rightarrow> error + u64" where
  "cache_read c i = (if 0 \<le> i \<and> i < int (length c) then Inr (c ! nat i) else Inl OutOfBounds)"

definition cache_write :: "u64 list \<Rightarrow> int \<Rightarrow> u64 \<Rightarrow> error + u64 list" where
  "cache_write c i v =
     (if 0 \<le> i \<and> i < int (length c) then Inr (c[nat i := v]) else Inl OutOfBounds)"

text \<open>\<^verbatim>\<open>for (int i = 2; i < MAX_CACHE; i++) cache[i] = cache[i-1] + cache[i-2];\<close>\<close>

function init_loop :: "int \<Rightarrow> u64 list \<Rightarrow> error + u64 list" where
  "init_loop i c =
     (if i < MAX_CACHE then
        (case cache_read c (i - 1) of
           Inl e \<Rightarrow> Inl e
         | Inr x \<Rightarrow>
            (case cache_read c (i - 2) of
               Inl e \<Rightarrow> Inl e
             | Inr y \<Rightarrow>
                (case cache_write c i (x + y) of
                   Inl e \<Rightarrow> Inl e
                 | Inr c' \<Rightarrow> init_loop (i + 1) c')))
      else Inr c)"
  by pat_completeness auto
termination
  by (relation "measure (\<lambda>(i, c). nat (MAX_CACHE - i))") auto

definition init_cache :: "cache_state \<Rightarrow> error + cache_state" where
  "init_cache s =
     (if initialized s = 0 then
        (case cache_write (cache s) 0 0 of
           Inl e \<Rightarrow> Inl e
         | Inr c0 \<Rightarrow>
            (case cache_write c0 1 1 of
               Inl e \<Rightarrow> Inl e
             | Inr c1 \<Rightarrow>
                (case init_loop 2 c1 of
                   Inl e \<Rightarrow> Inl e
                 | Inr c2 \<Rightarrow> Inr \<lparr>cache = c2, initialized = 1\<rparr>)))
      else Inr s)"

text \<open>\<^verbatim>\<open>while (i < MAX_CACHE-2 && cache[i] <= miles) i++;\<close>\<close>

function cache_search :: "u64 list \<Rightarrow> f32 \<Rightarrow> int \<Rightarrow> error + int" where
  "cache_search c miles i =
     (if i < MAX_CACHE - 2 then
        (case cache_read c i of
           Inl e \<Rightarrow> Inl e
         | Inr v \<Rightarrow>
            if f32_le (f32_of_u64 v) miles then cache_search c miles (i + 1) else Inr i)
      else Inr i)"
  by pat_completeness auto
termination
  by (relation "measure (\<lambda>(c, miles, i). nat (MAX_CACHE - 2 - i))") auto

declare init_loop.simps [simp del] cache_search.simps [simp del]

definition cache_convert :: "u64 list \<Rightarrow> f32 \<Rightarrow> error + f32" where
  "cache_convert c miles =
     (if f32_lt miles (Finite 5) then basic_miles2km_of_float miles
      else case cache_search c miles 2 of
        Inl e \<Rightarrow> Inl e
      | Inr i \<Rightarrow>
          if MAX_CACHE - 2 \<le> i then basic_miles2km_of_float miles
          else
            (case cache_read c (i - 1) of
               Inl e \<Rightarrow> Inl e
             | Inr Fn \<Rightarrow>
                (case cache_read c i of
                   Inl e \<Rightarrow> Inl e
                 | Inr Fn1 \<Rightarrow>
                    (case cache_read c (i + 1) of
                       Inl e \<Rightarrow> Inl e
                     | Inr Fn2 \<Rightarrow>
                        Inr (f32_add (f32_of_u64 Fn1)
                          (f32_mul (f32_sub miles (f32_of_u64 Fn))
                             (f32_div (f32_of_u64 (Fn2 - Fn1)) (f32_of_u64 (Fn1 - Fn)))))))))"

text \<open>A call: initialise the table when it is not, then convert with it.\<close>

definition fib_cache_convert :: "cache_state \<Rightarrow> f32 \<Rightarrow> (error + f32) \<times> cache_state" where
  "fib_cache_convert s miles =
     (case init_cache s of
        Inl e \<Rightarrow> (Inl e, s)
      | Inr s' \<Rightarrow> (cache_convert (cache s') miles, s'))"

section \<open>The closed form with the golden ratio\<close>

text \<open>
  \<^verbatim>\<open>fib_golden_ratio\<close> computes in \<^verbatim>\<open>double\<close> with \<^verbatim>\<open>sqrt\<close>,
  \<^verbatim>\<open>log\<close>, \<^verbatim>\<open>pow\<close> and \<^verbatim>\<open>floor\<close> of the C library. The
  model computes these steps on the real numbers, without the rounding of
  \<^verbatim>\<open>double\<close> arithmetic; the two conversions to \<^verbatim>\<open>float\<close>, the cast and
  the return value, round as above. The constants are the \<^verbatim>\<open>double\<close> nearest to
  \<^verbatim>\<open>1e-5\<close> and \<^verbatim>\<open>DBL_EPSILON\<close>, which is \<open>2 powi (- 52)\<close>. The
  first test, against \<^verbatim>\<open>1e-5\<close>, is exact. Past it the compiled function can
  differ from this model in the last bits of the result, so the model is used there only
  at inputs where the index \<open>k\<close> and the compared values are far from any rounding.
\<close>

definition dbl_1e_5 :: real where
  "dbl_1e_5 = 5902958103587057 / 590295810358705651712"

definition DBL_EPSILON :: real where
  "DBL_EPSILON = 1 / 4503599627370496"

definition phi :: real where
  "phi = (1 + sqrt 5) / 2"

text \<open>
  The last step, \<^verbatim>\<open>Fk1 + (miles - Fk) * ((float)(Fk2 - Fk1) / (Fk1 - Fk))\<close>, for a
  positive denominator; an infinite cast makes the product infinite, or a NaN when the
  other factor is zero.
\<close>

definition golden_interpolate :: "real \<Rightarrow> real \<Rightarrow> real \<Rightarrow> real \<Rightarrow> f32" where
  "golden_interpolate x Fk Fk1 Fk2 =
     (case rnd32 (Fk2 - Fk1) of
        Finite c \<Rightarrow> rnd32 (Fk1 + (x - Fk) * (c / (Fk1 - Fk)))
      | PInf \<Rightarrow> (if x - Fk = 0 then NaN else inf_signed (x - Fk < 0))
      | NInf \<Rightarrow> (if x - Fk = 0 then NaN else inf_signed (0 < x - Fk))
      | NaN \<Rightarrow> NaN)"

fun fib_golden_ratio :: "f32 \<Rightarrow> error + f32" where
  "fib_golden_ratio (Finite x) =
     (if x < dbl_1e_5 then Inr (Finite 0)
      else
        let n = ln (x * sqrt 5) / ln phi;
            k = \<lfloor>n\<rfloor>
        in if \<not> in_int_range k then Inl UndefinedConversion
           else
             let Fk = (phi powi k - (- phi) powi (- k)) / sqrt 5;
                 Fk1 = (phi powi (k + 1) - (- phi) powi (- k - 1)) / sqrt 5;
                 Fk2 = (phi powi (k + 2) - (- phi) powi (- k - 2)) / sqrt 5
             in if Fk1 - Fk < DBL_EPSILON then basic_miles2km_of_float (Finite x)
                else Inr (golden_interpolate x Fk Fk1 Fk2))"
| "fib_golden_ratio NInf = Inr (Finite 0)"
| "fib_golden_ratio PInf = Inl UndefinedConversion"
| "fib_golden_ratio NaN = Inl UndefinedConversion"

declare fib_golden_ratio.simps [simp del]

section \<open>Notions used in the proofs\<close>

text \<open>
  The sequence \<open>fib_spec\<close> as 64-bit words, the table of its first 94 members, the
  Fibonacci numbers computed with an accumulator (to evaluate \<open>fib_spec\<close> in linear
  time), the state of the walk of \<open>find_interval\<close> after \<open>t\<close> rounds, and the index at
  which a search along the sequence from index \<open>i\<close> stops when it is cut off at \<open>cap\<close>.
\<close>

definition fibw :: "nat \<Rightarrow> u64" where
  "fibw n = of_nat (fib_spec n)"

definition fib_table :: "u64 list" where
  "fib_table = map fibw [0..<94]"

fun fib_acc :: "nat \<Rightarrow> int \<Rightarrow> int \<Rightarrow> int" where
  "fib_acc 0 a b = a"
| "fib_acc (Suc k) a b = fib_acc k b (a + b)"

definition walk_at :: "nat \<Rightarrow> walk" where
  "walk_at t =
     \<lparr>prev_mile = fibw (Suc t), prev_km = fibw (Suc (Suc t)),
      curr_mile = fibw (Suc (Suc t)), curr_km = fibw (Suc (Suc (Suc t)))\<rparr>"

function exit_index :: "nat \<Rightarrow> f32 \<Rightarrow> nat \<Rightarrow> nat" where
  "exit_index cap miles i =
     (if i < cap \<and> f32_le (f32_of_u64 (fibw i)) miles then exit_index cap miles (Suc i) else i)"
  by pat_completeness auto
termination
  by (relation "measure (\<lambda>(cap, miles, i). cap - i)") auto

declare exit_index.simps [simp del]

text \<open>
  The value of the interpolation formula on a bracket with lower mile mark \<open>B\<close>, lower
  kilometre mark \<open>A\<close> and slope \<open>r\<close>, each operation rounded; the value of the exact
  converter on a non-negative argument; and the value of \<open>fib_interpolate\<close> below 144
  miles, bracket by bracket.
\<close>

definition interp_val :: "real \<Rightarrow> real \<Rightarrow> real \<Rightarrow> real \<Rightarrow> real" where
  "interp_val A B r x = f32_round (A + f32_round (f32_round (x - B) * r))"

definition basic_val :: "real \<Rightarrow> real" where
  "basic_val x = f32_round (f32_round (of_int \<lfloor>x\<rfloor>) * (3375039 / 2097152))"

definition km_val :: "real \<Rightarrow> real" where
  "km_val x =
     (if x < 5 then basic_val x
      else if x < 8 then interp_val 8 5 (13981013 / 8388608) x
      else if x < 13 then interp_val 13 8 (13421773 / 8388608) x
      else if x < 21 then interp_val 21 13 (13 / 8) x
      else if x < 34 then interp_val 34 21 (3387707 / 2097152) x
      else if x < 55 then interp_val 55 34 (3395389 / 2097152) x
      else if x < 89 then interp_val 89 55 (13569807 / 8388608) x
      else interp_val 144 89 (13574293 / 8388608) x)"

text \<open>The conjugate of the golden ratio, for Binet's formula.\<close>

definition psi :: real where
  "psi = (1 - sqrt 5) / 2"

definition cache_state_ok :: "cache_state \<Rightarrow> bool" where
  "cache_state_ok s \<longleftrightarrow>
     int (length (cache s)) = MAX_CACHE \<and> (initialized s = 0 \<or> cache s = fib_table)"

section \<open>The loop of the generator\<close>

lemma fib_loop_pair_iter:
  "i \<le> num + 1 \<Longrightarrow> fib_loop num i a b = pair_iter (nat (num + 1 - i)) a b"
proof (induction num i a b rule: fib_loop.induct)
  case (1 num i a b)
  show ?case
  proof (cases "i \<le> num")
    case True
    then have "nat (num + 1 - i) = Suc (nat (num + 1 - (i + 1)))" by simp
    with True "1.IH" show ?thesis
      by (subst fib_loop.simps) simp
  next
    case False
    with "1.prems" have "num + 1 - i = 0" by simp
    with False show ?thesis
      by (subst fib_loop.simps) simp
  qed
qed

lemma pair_iter_rec:
  "pair_iter (Suc (Suc k)) a b = pair_iter (Suc k) a b + pair_iter k a b"
proof (induction k arbitrary: a b)
  case 0
  show ?case by (simp add: add.commute)
next
  case (Suc k)
  have "pair_iter (Suc (Suc (Suc k))) a b = pair_iter (Suc (Suc k)) b (a + b)" by simp
  also have "\<dots> = pair_iter (Suc k) b (a + b) + pair_iter k b (a + b)" by (rule Suc.IH)
  finally show ?case by simp
qed

lemma pair_iter_fib_spec:
  "pair_iter k (of_nat (fib_spec j)) (of_nat (fib_spec (Suc j))) = of_nat (fib_spec (Suc (j + k)))"
proof (induction k arbitrary: j)
  case 0
  show ?case by simp
next
  case (Suc k)
  have "pair_iter (Suc k) (of_nat (fib_spec j)) (of_nat (fib_spec (Suc j)))
      = pair_iter k (of_nat (fib_spec (Suc j))) (of_nat (fib_spec (Suc (Suc j))))"
    by (simp add: add.commute)
  also have "\<dots> = of_nat (fib_spec (Suc (Suc j + k)))" by (rule Suc.IH)
  finally show ?case by simp
qed

lemma fibonacci_pair_iter:
  "2 \<le> n \<Longrightarrow> fibonacci n = pair_iter (nat (n - 1)) 0 1"
  by (simp add: fibonacci_def fib_loop_pair_iter)

lemma fibonacci_of_nat: "fibonacci (int n) = of_nat (fib_spec n)"
proof (cases "n < 2")
  case True
  then have "n = 0 \<or> n = 1" by auto
  then show ?thesis by (auto simp: fibonacci_def)
next
  case False
  then have n: "2 \<le> int n" by simp
  have "fibonacci (int n) = pair_iter (n - 1) 0 1"
    using fibonacci_pair_iter [OF n] by (simp add: nat_diff_distrib')
  also have "\<dots> = pair_iter (n - 1) (of_nat (fib_spec 0)) (of_nat (fib_spec (Suc 0)))" by simp
  also have "\<dots> = of_nat (fib_spec (Suc (0 + (n - 1))))" by (rule pair_iter_fib_spec)
  also have "Suc (0 + (n - 1)) = n" using False by simp
  finally show ?thesis .
qed

section \<open>The sequence in 64 bits\<close>

lemma fib_acc_spec:
  "fib_acc k (int (fib_spec j)) (int (fib_spec (Suc j))) = int (fib_spec (j + k))"
proof (induction k arbitrary: j)
  case 0
  show ?case by simp
next
  case (Suc k)
  have "fib_acc (Suc k) (int (fib_spec j)) (int (fib_spec (Suc j)))
      = fib_acc k (int (fib_spec (Suc j))) (int (fib_spec (Suc (Suc j))))"
    by (simp add: add.commute)
  also have "\<dots> = int (fib_spec (Suc j + k))" by (rule Suc.IH)
  finally show ?case by simp
qed

lemma fib_spec_acc: "int (fib_spec n) = fib_acc n 0 1"
  using fib_acc_spec [of n 0] by simp

lemma fib_acc_numeral: "fib_acc (numeral n) a b = fib_acc (pred_numeral n) b (a + b)"
  by (simp add: numeral_eq_Suc)

lemma fib_spec_93: "fib_spec 93 = 12200160415121876738"
proof -
  have "int (fib_spec 93) = 12200160415121876738"
    unfolding fib_spec_acc by (simp add: fib_acc_numeral)
  then show ?thesis by linarith
qed

lemma fib_spec_94: "fib_spec 94 = 19740274219868223167"
proof -
  have "int (fib_spec 94) = 19740274219868223167"
    unfolding fib_spec_acc by (simp add: fib_acc_numeral)
  then show ?thesis by linarith
qed

lemma fib_spec_Suc_mono: "fib_spec n \<le> fib_spec (Suc n)"
  by (cases n) simp_all

lemma fib_spec_mono: "m \<le> n \<Longrightarrow> fib_spec m \<le> fib_spec n"
  by (rule lift_Suc_mono_le [of fib_spec]) (rule fib_spec_Suc_mono)

lemma fib_spec_bound: "n \<le> 93 \<Longrightarrow> fib_spec n < 2 ^ 64"
proof -
  assume "n \<le> 93"
  then have "fib_spec n \<le> fib_spec 93" by (rule fib_spec_mono)
  then show ?thesis by (simp add: fib_spec_93)
qed

lemma unat_fibw: "n \<le> 93 \<Longrightarrow> unat (fibw n) = fib_spec n"
  using fib_spec_bound [of n] by (simp add: fibw_def unat_of_nat)

lemma fibw_rec: "fibw (Suc (Suc n)) = fibw (Suc n) + fibw n"
  by (simp add: fibw_def)

lemma fibw_diff: "fibw (Suc (Suc n)) - fibw (Suc n) = fibw n"
  by (simp add: fibw_rec)

lemma fibw_le: "m \<le> n \<Longrightarrow> n \<le> 93 \<Longrightarrow> fibw m \<le> fibw n"
  by (simp add: word_le_nat_alt unat_fibw fib_spec_mono)

lemma fibw_93: "fibw 93 = 12200160415121876738"
  by (simp add: fibw_def fib_spec_93)

lemma fibw_94: "fibw 94 = 1293530146158671551"
  by (simp add: fibw_def fib_spec_94)

lemma fibw_94_less: "fibw 94 < fibw 93"
  by (simp add: fibw_93 fibw_94)

lemma fibonacci_fibw: "fibonacci (int n) = fibw n"
  by (simp add: fibonacci_of_nat fibw_def)


section \<open>The initialised table\<close>

lemma length_fib_table: "length fib_table = 94"
  by (simp add: fib_table_def)

lemma nth_fib_table: "j < 94 \<Longrightarrow> fib_table ! j = fibw j"
  unfolding fib_table_def by (simp del: upt_Suc)

lemma cache_read_fib_table:
  "0 \<le> i \<Longrightarrow> i < 94 \<Longrightarrow> cache_read fib_table i = Inr (fibw (nat i))"
  by (simp add: cache_read_def length_fib_table nth_fib_table)

lemma init_loop_fib:
  "length c = 94 \<Longrightarrow> 2 \<le> i \<Longrightarrow> i \<le> 94 \<Longrightarrow> \<forall>j < nat i. c ! j = fibw j
   \<Longrightarrow> init_loop i c = Inr fib_table"
proof (induction i c rule: init_loop.induct)
  case (1 i c)
  show ?case
  proof (cases "i < 94")
    case True
    define k where "k = nat (i - 2)"
    have i: "nat i = Suc (Suc k)" "nat (i - 1) = Suc k" "nat (i - 2) = k"
      using "1.prems"(2) by (simp_all add: k_def)
    have rx: "cache_read c (i - 1) = Inr (fibw (Suc k))"
      using "1.prems" True i by (simp add: cache_read_def)
    have ry: "cache_read c (i - 2) = Inr (fibw k)"
      using "1.prems" True i by (simp add: cache_read_def)
    define c' where "c' = c[nat i := fibw (Suc k) + fibw k]"
    have wr: "cache_write c i (fibw (Suc k) + fibw k) = Inr c'"
      using "1.prems" True by (simp add: cache_write_def c'_def)
    have len: "length c' = 94" using "1.prems"(1) by (simp add: c'_def)
    have tab: "\<forall>j < nat (i + 1). c' ! j = fibw j"
    proof (intro allI impI)
      fix j assume "j < nat (i + 1)"
      then have "j < nat i \<or> j = nat i" using "1.prems"(2) by linarith
      then show "c' ! j = fibw j"
      proof
        assume "j < nat i"
        then show ?thesis using "1.prems"(4) by (simp add: c'_def)
      next
        assume j: "j = nat i"
        have "nat i < length c" using "1.prems" True by simp
        then show ?thesis by (simp add: j c'_def i fibw_rec)
      qed
    qed
    have "init_loop (i + 1) c' = Inr fib_table"
      using True rx ry wr len tab "1.prems"(2)
      by (intro "1.IH") (simp_all add: MAX_CACHE_def)
    then show ?thesis
      using True rx ry wr by (subst init_loop.simps) (simp add: MAX_CACHE_def)
  next
    case False
    with "1.prems" have i: "i = 94" by simp
    have "c = fib_table"
    proof (rule nth_equalityI)
      show "length c = length fib_table" using "1.prems"(1) by (simp add: length_fib_table)
    next
      fix j assume "j < length c"
      then have "j < 94" using "1.prems"(1) by simp
      then show "c ! j = fib_table ! j" using "1.prems"(4) i by (simp add: nth_fib_table)
    qed
    then show ?thesis using i by (subst init_loop.simps) (simp add: MAX_CACHE_def)
  qed
qed

lemma fibw_0: "fibw 0 = 0" and fibw_1: "fibw (Suc 0) = 1"
  by (simp_all add: fibw_def)

lemma init_cache_fresh:
  assumes "int (length (cache s)) = MAX_CACHE" "initialized s = 0"
  shows "init_cache s = Inr \<lparr>cache = fib_table, initialized = 1\<rparr>"
proof -
  have len: "length (cache s) = 94" using assms(1) by (simp add: MAX_CACHE_def)
  define c1 where "c1 = (cache s)[0 := 0, 1 := 1]"
  have "init_loop 2 c1 = Inr fib_table"
  proof (rule init_loop_fib)
    show "length c1 = 94" by (simp add: c1_def len)
    show "\<forall>j < nat 2. c1 ! j = fibw j"
    proof (intro allI impI)
      fix j :: nat assume "j < nat 2"
      then have "j = 0 \<or> j = 1" by auto
      then show "c1 ! j = fibw j" by (auto simp: c1_def len fibw_0 fibw_1)
    qed
  qed simp_all
  then show ?thesis
    using assms(2) len by (simp add: init_cache_def cache_write_def c1_def)
qed

lemma init_cache_done: "initialized s \<noteq> 0 \<Longrightarrow> init_cache s = Inr s"
  by (simp add: init_cache_def)


section \<open>Where a search along the sequence stops\<close>

lemma exit_index_ge: "i \<le> exit_index cap miles i"
proof (induction cap miles i rule: exit_index.induct)
  case (1 cap miles i)
  show ?case
  proof (cases "i < cap \<and> f32_le (f32_of_u64 (fibw i)) miles")
    case True
    with "1.IH" have "Suc i \<le> exit_index cap miles (Suc i)" by simp
    with True show ?thesis by (subst exit_index.simps) simp
  next
    case False
    then show ?thesis by (subst exit_index.simps) auto
  qed
qed

lemma exit_index_le_cap: "i \<le> cap \<Longrightarrow> exit_index cap miles i \<le> cap"
proof (induction cap miles i rule: exit_index.induct)
  case (1 cap miles i)
  show ?case
  proof (cases "i < cap \<and> f32_le (f32_of_u64 (fibw i)) miles")
    case True
    with "1.IH" have "exit_index cap miles (Suc i) \<le> cap" by simp
    with True show ?thesis by (subst exit_index.simps) simp
  next
    case False
    with "1.prems" show ?thesis by (subst exit_index.simps) auto
  qed
qed

lemma exit_index_stop:
  "i \<le> j \<Longrightarrow> \<not> f32_le (f32_of_u64 (fibw j)) miles \<Longrightarrow> exit_index cap miles i \<le> j"
proof (induction cap miles i rule: exit_index.induct)
  case (1 cap miles i)
  show ?case
  proof (cases "i < cap \<and> f32_le (f32_of_u64 (fibw i)) miles")
    case True
    with "1.prems" have "i \<noteq> j" by auto
    with "1.prems" have "Suc i \<le> j" by simp
    with True "1.IH" "1.prems" have "exit_index cap miles (Suc i) \<le> j" by simp
    with True show ?thesis by (subst exit_index.simps) simp
  next
    case False
    with "1.prems" show ?thesis by (subst exit_index.simps) auto
  qed
qed

lemma exit_index_pass:
  "i < cap \<Longrightarrow> f32_le (f32_of_u64 (fibw i)) miles
   \<Longrightarrow> exit_index cap miles i = exit_index cap miles (Suc i)"
  by (subst exit_index.simps) simp

lemma exit_index_fail:
  "\<not> f32_le (f32_of_u64 (fibw i)) miles \<Longrightarrow> exit_index cap miles i = i"
  by (subst exit_index.simps) simp

lemma exit_index_at_cap: "cap \<le> i \<Longrightarrow> exit_index cap miles i = i"
  by (subst exit_index.simps) simp

lemma exit_index_not_le:
  "exit_index cap miles i < cap \<Longrightarrow> \<not> f32_le (f32_of_u64 (fibw (exit_index cap miles i))) miles"
proof (induction cap miles i rule: exit_index.induct)
  case (1 cap miles i)
  show ?case
  proof (cases "i < cap \<and> f32_le (f32_of_u64 (fibw i)) miles")
    case True
    then have eq: "exit_index cap miles i = exit_index cap miles (Suc i)"
      by (simp add: exit_index_pass)
    with "1.IH" True "1.prems" show ?thesis by simp
  next
    case False
    then have eq: "exit_index cap miles i = i" by (subst exit_index.simps) auto
    with False "1.prems" show ?thesis by simp
  qed
qed

lemma exit_index_cap_irrelevant:
  "exit_index cap miles i < cap \<Longrightarrow> cap \<le> cap' \<Longrightarrow> exit_index cap' miles i = exit_index cap miles i"
proof (induction cap miles i rule: exit_index.induct)
  case (1 cap miles i)
  show ?case
  proof (cases "i < cap \<and> f32_le (f32_of_u64 (fibw i)) miles")
    case True
    then have eq: "exit_index cap miles i = exit_index cap miles (Suc i)"
      by (simp add: exit_index_pass)
    from True "1.prems" have eq': "exit_index cap' miles i = exit_index cap' miles (Suc i)"
      by (simp add: exit_index_pass)
    from "1.IH" True "1.prems" eq show ?thesis by (simp add: eq')
  next
    case False
    then have eq: "exit_index cap miles i = i" by (subst exit_index.simps) auto
    with "1.prems" False have "\<not> f32_le (f32_of_u64 (fibw i)) miles" by auto
    then show ?thesis by (simp add: eq exit_index_fail)
  qed
qed

section \<open>The search on the table follows the sequence\<close>

lemma cache_search_exit:
  "cap = 92 \<Longrightarrow> i \<le> cap \<Longrightarrow>
   cache_search fib_table miles (int i) = Inr (int (exit_index cap miles i))"
proof (induction cap miles i rule: exit_index.induct)
  case (1 cap miles i)
  show ?case
  proof (cases "i < cap")
    case True
    then have rd: "cache_read fib_table (int i) = Inr (fibw i)"
      using "1.prems" by (simp add: cache_read_fib_table)
    show ?thesis
    proof (cases "f32_le (f32_of_u64 (fibw i)) miles")
      case le: True
      have "cache_search fib_table miles (int (Suc i)) = Inr (int (exit_index cap miles (Suc i)))"
        using True le "1.prems" by (intro "1.IH") simp_all
      then show ?thesis
        using True le rd "1.prems"(1)
        by (subst cache_search.simps) (simp add: MAX_CACHE_def exit_index_pass add.commute)
    next
      case False
      then show ?thesis
        using True rd "1.prems"(1)
        by (subst cache_search.simps) (simp add: MAX_CACHE_def exit_index_fail)
    qed
  next
    case False
    with "1.prems" have "i = 92" by simp
    then show ?thesis
      using "1.prems"(1) by (subst cache_search.simps) (simp add: MAX_CACHE_def exit_index_at_cap)
  qed
qed

section \<open>The walk follows the sequence\<close>

lemma walk_next_at: "walk_next (walk_at u) = walk_at (Suc u)"
  by (simp add: walk_next_def walk_at_def fibw_rec add.commute)

lemma walk_overflow_at: "u \<le> 91 \<Longrightarrow> walk_overflow (walk_at u) \<longleftrightarrow> u = 91"
proof (cases "u = 91")
  case True
  have "Suc (Suc (Suc 91)) = 94" "Suc (Suc 91) = 93" by simp_all
  with True show ?thesis by (simp add: walk_overflow_def walk_at_def fibw_94_less)
next
  case False
  assume "u \<le> 91"
  with False have u: "u \<le> 90" by simp
  have "fibw (Suc (Suc u)) \<le> fibw (Suc (Suc (Suc u)))" "fibw (Suc u) \<le> fibw (Suc (Suc u))"
    using u by (auto intro: fibw_le)
  with False show ?thesis by (simp add: walk_overflow_def walk_at_def not_less)
qed

lemma find_interval_at:
  "cap = 93 \<Longrightarrow> i = Suc (Suc t) \<Longrightarrow> i \<le> 92 \<Longrightarrow>
   find_interval miles (walk_at t) = Some (walk_at (exit_index cap miles i - 2))"
proof (induction cap miles i arbitrary: t rule: exit_index.induct)
  case (1 cap miles i)
  have cm: "curr_mile (walk_at t) = fibw i"
    using "1.prems" by (simp add: walk_at_def)
  have t: "t \<le> 90" using "1.prems" by simp
  show ?case
  proof (cases "f32_le (f32_of_u64 (fibw i)) miles")
    case le: True
    show ?thesis
    proof (cases "i = 92")
      case True
      then have "Suc t = 91" using "1.prems" by simp
      then have "walk_overflow (walk_at (Suc t))" by (simp add: walk_overflow_at)
      moreover have "exit_index cap miles i = 93"
        using True le "1.prems"(1) by (simp add: exit_index_pass exit_index_at_cap)
      moreover have "(93::nat) - 2 = Suc t" using \<open>Suc t = 91\<close> by simp
      ultimately show ?thesis
        using le cm by (subst find_interval.simps) (simp add: walk_next_at)
    next
      case False
      with "1.prems" have i: "i < 92" by simp
      then have "Suc t \<le> 91" "Suc t \<noteq> 91" using "1.prems" by simp_all
      then have no: "\<not> walk_overflow (walk_at (Suc t))" by (simp add: walk_overflow_at)
      have "find_interval miles (walk_at (Suc t)) = Some (walk_at (exit_index cap miles (Suc i) - 2))"
        using le i "1.prems" by (intro "1.IH") simp_all
      then show ?thesis
        using le cm no i "1.prems"(1)
        by (subst find_interval.simps) (simp add: exit_index_pass walk_next_at)
    qed
  next
    case False
    moreover have "i - 2 = t" using "1.prems" by simp
    ultimately show ?thesis
      using cm by (subst find_interval.simps) (simp add: exit_index_fail)
  qed
qed

section \<open>Calls of the cached converter\<close>

lemma basic_miles2km_of_float_in_bounds: "basic_miles2km_of_float miles \<noteq> Inl OutOfBounds"
  by (cases miles) (simp_all add: basic_miles2km_of_float_def)

lemma cache_convert_fib_table:
  "cache_convert fib_table miles =
     (if f32_lt miles (Finite 5) \<or> 92 \<le> exit_index 92 miles 2
      then basic_miles2km_of_float miles
      else Inr (f32_add (f32_of_u64 (fibw (exit_index 92 miles 2)))
             (f32_mul (f32_sub miles (f32_of_u64 (fibw (exit_index 92 miles 2 - 1))))
                (f32_div (f32_of_u64 (fibw (exit_index 92 miles 2 + 1) - fibw (exit_index 92 miles 2)))
                   (f32_of_u64 (fibw (exit_index 92 miles 2) - fibw (exit_index 92 miles 2 - 1)))))))"
proof -
  define i where "i = exit_index 92 miles 2"
  have s: "cache_search fib_table miles 2 = Inr (int i)"
    using cache_search_exit [of 92 2 miles] by (simp add: i_def)
  have lo: "2 \<le> i" unfolding i_def by (rule exit_index_ge)
  show ?thesis
  proof (cases "92 \<le> i")
    case True
    then show ?thesis
      using s by (simp add: cache_convert_def MAX_CACHE_def i_def [symmetric])
  next
    case False
    then have r: "cache_read fib_table (int i - 1) = Inr (fibw (i - 1))"
      "cache_read fib_table (int i) = Inr (fibw i)"
      "cache_read fib_table (int i + 1) = Inr (fibw (i + 1))"
      using lo by (simp_all add: cache_read_fib_table nat_diff_distrib' nat_add_distrib)
    show ?thesis
      using s False r by (simp add: cache_convert_def MAX_CACHE_def i_def [symmetric])
  qed
qed

lemma cache_convert_in_bounds: "cache_convert fib_table miles \<noteq> Inl OutOfBounds"
  by (simp add: cache_convert_fib_table basic_miles2km_of_float_in_bounds)

lemma init_cache_ok:
  "cache_state_ok s \<Longrightarrow> \<exists>s'. init_cache s = Inr s' \<and> cache s' = fib_table \<and> initialized s' \<noteq> 0"
proof (cases "initialized s = 0")
  case True
  assume "cache_state_ok s"
  then show ?thesis
    using True by (simp add: cache_state_ok_def init_cache_fresh)
next
  case False
  assume "cache_state_ok s"
  then show ?thesis
    using False by (simp add: cache_state_ok_def init_cache_done)
qed

lemma fib_cache_convert_ok:
  assumes "cache_state_ok s"
  shows "fst (fib_cache_convert s miles) = cache_convert fib_table miles"
    and "cache (snd (fib_cache_convert s miles)) = fib_table"
    and "initialized (snd (fib_cache_convert s miles)) \<noteq> 0"
  using init_cache_ok [OF assms] by (auto simp: fib_cache_convert_def)

lemma cache_state_init_ok: "cache_state_ok cache_state_init"
  by (simp add: cache_state_ok_def cache_state_init_def MAX_CACHE_def)

lemma fib_cache_convert_first:
  "fib_cache_convert cache_state_init miles =
     (cache_convert fib_table miles, \<lparr>cache = fib_table, initialized = 1\<rparr>)"
  using init_cache_fresh [of cache_state_init]
  by (simp add: fib_cache_convert_def cache_state_init_def MAX_CACHE_def)

lemma fib_cache_convert_later:
  "fib_cache_convert \<lparr>cache = fib_table, initialized = 1\<rparr> miles =
     (cache_convert fib_table miles, \<lparr>cache = fib_table, initialized = 1\<rparr>)"
  by (simp add: fib_cache_convert_def init_cache_done)

section \<open>The exponent search and the rounding\<close>

lemma two_powi_Suc: "(2::real) powi (e + 1) = 2 * 2 powi e"
  by (simp add: power_int_add_1')

lemma expo_up_ge: "e \<le> expo_up x e"
proof (induction x e rule: expo_up.induct)
  case (1 x e)
  show ?case
  proof (cases "e < 127 \<and> 2 powi (e + 1) \<le> x")
    case True
    with "1.IH" have "e + 1 \<le> expo_up x (e + 1)" by simp
    with True show ?thesis by (subst expo_up.simps) simp
  next
    case False
    then show ?thesis by (subst expo_up.simps) auto
  qed
qed

lemma expo_up_le: "e \<le> 127 \<Longrightarrow> expo_up x e \<le> 127"
proof (induction x e rule: expo_up.induct)
  case (1 x e)
  show ?case
  proof (cases "e < 127 \<and> 2 powi (e + 1) \<le> x")
    case True
    with "1.IH" have "expo_up x (e + 1) \<le> 127" by simp
    with True show ?thesis by (subst expo_up.simps) simp
  next
    case False
    with "1.prems" show ?thesis by (subst expo_up.simps) auto
  qed
qed

lemma expo_up_lower: "2 powi e \<le> x \<Longrightarrow> 2 powi (expo_up x e) \<le> x"
proof (induction x e rule: expo_up.induct)
  case (1 x e)
  show ?case
  proof (cases "e < 127 \<and> 2 powi (e + 1) \<le> x")
    case True
    with "1.IH" have "2 powi (expo_up x (e + 1)) \<le> x" by simp
    with True show ?thesis by (subst expo_up.simps) simp
  next
    case False
    with "1.prems" show ?thesis by (subst expo_up.simps) auto
  qed
qed

lemma expo_up_upper: "expo_up x e < 127 \<Longrightarrow> x < 2 powi (expo_up x e + 1)"
proof (induction x e rule: expo_up.induct)
  case (1 x e)
  show ?case
  proof (cases "e < 127 \<and> 2 powi (e + 1) \<le> x")
    case True
    then have eq: "expo_up x e = expo_up x (e + 1)" by (subst expo_up.simps) simp
    with "1.IH" True "1.prems" show ?thesis by simp
  next
    case False
    then have eq: "expo_up x e = e" by (subst expo_up.simps) auto
    with False "1.prems" show ?thesis by auto
  qed
qed

lemma expo_up_mono: "x \<le> y \<Longrightarrow> expo_up x e \<le> expo_up y e"
proof (induction x e rule: expo_up.induct)
  case (1 x e)
  show ?case
  proof (cases "e < 127 \<and> 2 powi (e + 1) \<le> x")
    case True
    with "1.prems" have y: "e < 127 \<and> 2 powi (e + 1) \<le> y" by simp
    from True have "expo_up x e = expo_up x (e + 1)" by (subst expo_up.simps) simp
    moreover from y have "expo_up y e = expo_up y (e + 1)" by (subst expo_up.simps) simp
    ultimately show ?thesis using "1.IH" True "1.prems" by simp
  next
    case False
    then have "expo_up x e = e" by (subst expo_up.simps) auto
    then show ?thesis by (simp add: expo_up_ge)
  qed
qed

lemma expo_down_le: "expo_down x e \<le> e"
proof (induction x e rule: expo_down.induct)
  case (1 x e)
  show ?case
  proof (cases "- 126 < e \<and> x < 2 powi e")
    case True
    with "1.IH" have "expo_down x (e - 1) \<le> e - 1" by simp
    with True show ?thesis by (subst expo_down.simps) simp
  next
    case False
    then show ?thesis by (subst expo_down.simps) auto
  qed
qed

lemma expo_down_ge: "- 126 \<le> e \<Longrightarrow> - 126 \<le> expo_down x e"
proof (induction x e rule: expo_down.induct)
  case (1 x e)
  show ?case
  proof (cases "- 126 < e \<and> x < 2 powi e")
    case True
    with "1.IH" have "- 126 \<le> expo_down x (e - 1)" by simp
    with True show ?thesis by (subst expo_down.simps) simp
  next
    case False
    with "1.prems" show ?thesis by (subst expo_down.simps) auto
  qed
qed

lemma expo_down_upper: "x < 2 powi (e + 1) \<Longrightarrow> x < 2 powi (expo_down x e + 1)"
proof (induction x e rule: expo_down.induct)
  case (1 x e)
  show ?case
  proof (cases "- 126 < e \<and> x < 2 powi e")
    case True
    then have eq: "expo_down x e = expo_down x (e - 1)" by (subst expo_down.simps) simp
    from True "1.IH" have "x < 2 powi (expo_down x (e - 1) + 1)" by simp
    with eq show ?thesis by simp
  next
    case False
    then have "expo_down x e = e" by (subst expo_down.simps) auto
    with "1.prems" show ?thesis by simp
  qed
qed

lemma expo_down_lower: "- 126 < expo_down x e \<Longrightarrow> 2 powi (expo_down x e) \<le> x"
proof (induction x e rule: expo_down.induct)
  case (1 x e)
  show ?case
  proof (cases "- 126 < e \<and> x < 2 powi e")
    case True
    then have eq: "expo_down x e = expo_down x (e - 1)" by (subst expo_down.simps) simp
    with "1.IH" True "1.prems" show ?thesis by simp
  next
    case False
    then have eq: "expo_down x e = e" by (subst expo_down.simps) auto
    with False "1.prems" show ?thesis by auto
  qed
qed

lemma expo_down_mono: "x \<le> y \<Longrightarrow> expo_down x e \<le> expo_down y e"
proof (induction y e rule: expo_down.induct)
  case (1 y e)
  show ?case
  proof (cases "- 126 < e \<and> y < 2 powi e")
    case True
    with "1.prems" have x: "- 126 < e \<and> x < 2 powi e" by simp
    from True have "expo_down y e = expo_down y (e - 1)" by (subst expo_down.simps) simp
    moreover from x have "expo_down x e = expo_down x (e - 1)" by (subst expo_down.simps) simp
    ultimately show ?thesis using "1.IH" True "1.prems" by simp
  next
    case False
    then have "expo_down y e = e" by (subst expo_down.simps) auto
    then show ?thesis by (simp add: expo_down_le)
  qed
qed

lemma f32_expo_range: "- 126 \<le> f32_expo x" "f32_expo x \<le> 127"
proof -
  have "- 126 \<le> (0::int)" by simp
  also have "0 \<le> expo_up \<bar>x\<bar> 0" by (rule expo_up_ge)
  finally have "- 126 \<le> expo_up \<bar>x\<bar> 0" .
  then show "- 126 \<le> f32_expo x" by (simp add: f32_expo_def expo_down_ge)
  have "expo_down \<bar>x\<bar> 0 \<le> 0" by (rule expo_down_le)
  then have "expo_down \<bar>x\<bar> 0 \<le> 127" by simp
  then show "f32_expo x \<le> 127" by (simp add: f32_expo_def expo_up_le)
qed

lemma f32_expo_lower: "- 126 < f32_expo x \<Longrightarrow> 2 powi (f32_expo x) \<le> \<bar>x\<bar>"
  by (auto simp: f32_expo_def intro: expo_up_lower expo_down_lower split: if_splits)

lemma f32_expo_upper: "f32_expo x < 127 \<Longrightarrow> \<bar>x\<bar> < 2 powi (f32_expo x + 1)"
proof (cases "1 \<le> \<bar>x\<bar>")
  case True
  assume "f32_expo x < 127"
  with True show ?thesis by (simp add: f32_expo_def expo_up_upper)
next
  case False
  then have "\<bar>x\<bar> < 2 powi (0 + 1)" by simp
  then have "\<bar>x\<bar> < 2 powi (expo_down \<bar>x\<bar> 0 + 1)" by (rule expo_down_upper)
  with False show ?thesis by (simp add: f32_expo_def)
qed

lemma f32_expo_mono: "0 \<le> x \<Longrightarrow> x \<le> y \<Longrightarrow> f32_expo x \<le> f32_expo y"
proof -
  assume xy: "0 \<le> x" "x \<le> y"
  show ?thesis
  proof (cases "1 \<le> x")
    case True
    with xy show ?thesis by (simp add: f32_expo_def expo_up_mono)
  next
    case x: False
    show ?thesis
    proof (cases "1 \<le> y")
      case True
      have "expo_down x 0 \<le> 0" by (rule expo_down_le)
      also have "0 \<le> expo_up y 0" by (rule expo_up_ge)
      finally show ?thesis using x True xy by (simp add: f32_expo_def)
    next
      case False
      with x xy show ?thesis by (simp add: f32_expo_def expo_down_mono)
    qed
  qed
qed


text \<open>Rounding to an integer is monotone and keeps integers.\<close>

lemma rne_bounds: "\<lfloor>y\<rfloor> \<le> rne y" "rne y \<le> \<lfloor>y\<rfloor> + 1"
  by (simp_all add: rne_def Let_def)

lemma rne_of_int: "rne (of_int n) = n"
  by (simp add: rne_def)

lemma rne_mono: "a \<le> b \<Longrightarrow> rne a \<le> rne b"
proof -
  assume ab: "a \<le> b"
  then have fl: "\<lfloor>a\<rfloor> \<le> \<lfloor>b\<rfloor>" by (rule floor_mono)
  show ?thesis
  proof (cases "\<lfloor>a\<rfloor> = \<lfloor>b\<rfloor>")
    case True
    with ab have "a - of_int \<lfloor>a\<rfloor> \<le> b - of_int \<lfloor>b\<rfloor>" by simp
    with True show ?thesis by (auto simp: rne_def Let_def)
  next
    case False
    with fl have "\<lfloor>a\<rfloor> + 1 \<le> \<lfloor>b\<rfloor>" by simp
    with rne_bounds(2) [of a] rne_bounds(1) [of b] show ?thesis by linarith
  qed
qed

lemma rne_le_int: "y \<le> of_int n \<Longrightarrow> rne y \<le> n"
  using rne_mono [of y "of_int n"] by (simp add: rne_of_int)

lemma rne_ge_int: "of_int n \<le> y \<Longrightarrow> n \<le> rne y"
  using rne_mono [of "of_int n" y] by (simp add: rne_of_int)

lemma rne_error: "\<bar>of_int (rne y) - y\<bar> \<le> 1 / 2"
proof -
  have "of_int \<lfloor>y\<rfloor> \<le> y" "y < of_int \<lfloor>y\<rfloor> + 1" by linarith+
  then show ?thesis by (auto simp: rne_def Let_def abs_le_iff)
qed

text \<open>Rounding to binary32 is monotone on the non-negative numbers.\<close>

lemma f32_round_eq: "f32_round x = of_int (rne (x / 2 powi (f32_expo x - 23))) * 2 powi (f32_expo x - 23)"
  by (simp add: f32_round_def Let_def)

lemma two_powi_add_nat: "(2::real) powi (e + int k) = 2 ^ k * 2 powi e"
  by (simp add: power_int_add mult.commute)

lemma two_powi_bottom: "(2::real) powi e = 2 ^ 23 * 2 powi (e - 23)"
  using two_powi_add_nat [of "e - 23" 23] by simp

lemma two_powi_top: "(2::real) powi (e + 1) = 2 ^ 24 * 2 powi (e - 23)"
  using two_powi_add_nat [of "e - 23" 24] by (simp add: add.commute)

lemma f32_round_le_top:
  assumes "0 \<le> x" "f32_expo x < 127"
  shows "f32_round x \<le> 2 powi (f32_expo x + 1)"
proof -
  define q :: real where "q = 2 powi (f32_expo x - 23)"
  have q: "0 < q" by (simp add: q_def)
  have "x < 2 powi (f32_expo x + 1)" using f32_expo_upper [OF assms(2)] assms(1) by simp
  also have "\<dots> = 2 ^ 24 * q" using two_powi_top [of "f32_expo x"] by (simp add: q_def)
  finally have "x / q \<le> of_int (2 ^ 24)" using q by (simp add: field_simps)
  then have "rne (x / q) \<le> 2 ^ 24" by (rule rne_le_int)
  then have "of_int (rne (x / q)) * q \<le> of_int (2 ^ 24) * q"
    using q by (intro mult_right_mono) simp_all
  also have "of_int (2 ^ 24) * q = 2 powi (f32_expo x + 1)"
    using two_powi_top [of "f32_expo x"] by (simp add: q_def)
  finally show ?thesis by (simp add: f32_round_eq q_def)
qed

lemma f32_round_ge_bottom:
  assumes "0 \<le> x" "- 126 < f32_expo x"
  shows "2 powi (f32_expo x) \<le> f32_round x"
proof -
  define q :: real where "q = 2 powi (f32_expo x - 23)"
  have q: "0 < q" by (simp add: q_def)
  have e: "2 powi (f32_expo x) = 2 ^ 23 * q" using two_powi_bottom [of "f32_expo x"] by (simp add: q_def)
  have "2 powi (f32_expo x) \<le> x" using f32_expo_lower [OF assms(2)] assms(1) by simp
  then have "of_int (2 ^ 23) \<le> x / q" using q e by (simp add: field_simps)
  then have "2 ^ 23 \<le> rne (x / q)" by (rule rne_ge_int)
  then have "of_int (2 ^ 23) * q \<le> of_int (rne (x / q)) * q"
    using q by (intro mult_right_mono) simp_all
  then show ?thesis using e by (simp add: f32_round_eq q_def)
qed

lemma f32_round_mono:
  assumes "0 \<le> x" "x \<le> y"
  shows "f32_round x \<le> f32_round y"
proof -
  have y: "0 \<le> y" using assms by simp
  have le: "f32_expo x \<le> f32_expo y" using assms by (rule f32_expo_mono)
  show ?thesis
  proof (cases "f32_expo x = f32_expo y")
    case True
    define q :: real where "q = 2 powi (f32_expo y - 23)"
    have q: "0 < q" by (simp add: q_def)
    have "x / q \<le> y / q" using assms q by (simp add: divide_right_mono)
    then have "rne (x / q) \<le> rne (y / q)" by (rule rne_mono)
    then have "of_int (rne (x / q)) * q \<le> of_int (rne (y / q)) * q"
      using q by (intro mult_right_mono) simp_all
    then show ?thesis by (simp add: f32_round_eq True q_def)
  next
    case False
    with le have lt: "f32_expo x < f32_expo y" by simp
    have "f32_expo x < 127" using lt f32_expo_range(2) [of y] by simp
    then have "f32_round x \<le> 2 powi (f32_expo x + 1)" using assms(1) by (intro f32_round_le_top)
    also have "\<dots> \<le> 2 powi (f32_expo y)" using lt by (intro power_int_increasing) simp_all
    also have "\<dots> \<le> f32_round y"
      using lt f32_expo_range(1) [of x] y by (intro f32_round_ge_bottom) simp_all
    finally show ?thesis .
  qed
qed

lemma f32_round_0: "f32_round 0 = 0"
  by (simp add: f32_round_eq rne_def)

lemma f32_round_nonneg: "0 \<le> x \<Longrightarrow> 0 \<le> f32_round x"
  using f32_round_mono [of 0 x] by (simp add: f32_round_0)

section \<open>Evaluation and conversions\<close>

lemmas f32_eval = rnd32_def f32_round_def f32_expo_def expo_up.simps expo_down.simps rne_def Let_def

lemma f32_round_2_64: "f32_round 18446744073709551616 = 18446744073709551616"
  by (simp add: f32_eval)

lemma f32_round_3: "f32_round 3 = 3"
  by (simp add: f32_eval)

lemma rnd32_finite: "0 \<le> x \<Longrightarrow> x \<le> 2 ^ 64 \<Longrightarrow> rnd32 x = Finite (f32_round x)"
proof -
  assume x: "0 \<le> x" "x \<le> 2 ^ 64"
  have "f32_round x \<le> f32_round (2 ^ 64)" using x by (rule f32_round_mono)
  then have "f32_round x < 2 ^ 128" by (simp add: f32_round_2_64)
  moreover have "0 \<le> f32_round x" using x(1) by (rule f32_round_nonneg)
  ultimately show ?thesis by (simp add: rnd32_def Let_def)
qed

lemma real_unat_bound: "real (unat (w::u64)) \<le> 2 ^ 64"
proof -
  have "unat w < 2 ^ 64" using unsigned_less [of w, where 'a = nat] by simp
  then have "real (unat w) < real (2 ^ 64)" by (simp only: of_nat_less_iff)
  then show ?thesis by simp
qed

lemma f32_of_u64_finite: "f32_of_u64 w = Finite (f32_round (real (unat w)))"
proof -
  have "0 \<le> real (unat w)" by (rule of_nat_0_le_iff)
  then show ?thesis
    unfolding f32_of_u64_def using real_unat_bound [of w] by (rule rnd32_finite)
qed

lemma f32_of_u64_mono: "a \<le> b \<Longrightarrow> f32_le (f32_of_u64 a) (f32_of_u64 b)"
  by (simp add: f32_of_u64_finite f32_round_mono word_le_nat_alt del: of_nat_unat)

lemma f32_of_u64_ge_3:
  "3 \<le> unat w \<Longrightarrow> \<exists>d. f32_of_u64 w = Finite d \<and> 3 \<le> d"
proof -
  assume "3 \<le> unat w"
  then have "real 3 \<le> real (unat w)" by (simp only: of_nat_le_iff)
  then have "f32_round 3 \<le> f32_round (real (unat w))" by (intro f32_round_mono) simp_all
  then show ?thesis by (simp add: f32_of_u64_finite f32_round_3 del: of_nat_unat)
qed

lemma fibw_acc: "fibw n = of_int (fib_acc n 0 1)"
  by (simp add: fibw_def flip: fib_spec_acc)

lemma fibw_small:
  "fibw 2 = 1" "fibw 3 = 2" "fibw 4 = 3" "fibw 5 = 5" "fibw 6 = 8" "fibw 7 = 13"
  "fibw 8 = 21" "fibw 9 = 34" "fibw 10 = 55" "fibw 11 = 89" "fibw 12 = 144" "fibw 13 = 233"
  by (simp_all add: fibw_acc fib_acc_numeral)

lemma f32_of_u64_small:
  "f32_of_u64 1 = Finite 1" "f32_of_u64 2 = Finite 2" "f32_of_u64 3 = Finite 3"
  "f32_of_u64 5 = Finite 5" "f32_of_u64 8 = Finite 8" "f32_of_u64 13 = Finite 13"
  "f32_of_u64 21 = Finite 21" "f32_of_u64 34 = Finite 34" "f32_of_u64 55 = Finite 55"
  "f32_of_u64 89 = Finite 89" "f32_of_u64 144 = Finite 144" "f32_of_u64 233 = Finite 233"
  by (simp_all add: f32_of_u64_def f32_eval)

lemma exit_index_from_5:
  assumes "5 \<le> x" "6 \<le> cap"
  shows "exit_index cap (Finite x) 2 = exit_index cap (Finite x) 6"
    and "exit_index cap (Finite x) 3 = exit_index cap (Finite x) 6"
proof -
  have 3: "exit_index cap (Finite x) 3 = exit_index cap (Finite x) (Suc 3)"
    using assms by (intro exit_index_pass) (simp_all add: fibw_small f32_of_u64_small)
  have 4: "exit_index cap (Finite x) 4 = exit_index cap (Finite x) (Suc 4)"
    using assms by (intro exit_index_pass) (simp_all add: fibw_small f32_of_u64_small)
  have 5: "exit_index cap (Finite x) 5 = exit_index cap (Finite x) (Suc 5)"
    using assms by (intro exit_index_pass) (simp_all add: fibw_small f32_of_u64_small)
  from 3 4 5 show "exit_index cap (Finite x) 3 = exit_index cap (Finite x) 6" by simp
  have 2: "exit_index cap (Finite x) 2 = exit_index cap (Finite x) (Suc 2)"
    using assms by (intro exit_index_pass) (simp_all add: fibw_small f32_of_u64_small)
  from 2 3 4 5 show "exit_index cap (Finite x) 2 = exit_index cap (Finite x) 6" by simp
qed

lemma exit_index_ge_6:
  assumes "5 \<le> x" "6 \<le> cap"
  shows "6 \<le> exit_index cap (Finite x) 2" "6 \<le> exit_index cap (Finite x) 3"
  using exit_index_from_5 [OF assms] exit_index_ge [of 6 cap "Finite x"] by simp_all

lemma find_interval_walk_init:
  assumes "f32_le (Finite 1) miles"
  shows "find_interval miles walk_init = Some (walk_at (exit_index 93 miles 3 - 2))"
proof -
  have nx: "walk_next walk_init = walk_at 1"
    by (simp add: walk_next_def walk_init_def walk_at_def fibw_def)
  have "\<not> walk_overflow (walk_at 1)" by (simp add: walk_overflow_at)
  moreover have "find_interval miles (walk_at 1) = Some (walk_at (exit_index 93 miles 3 - 2))"
    by (rule find_interval_at) simp_all
  ultimately show ?thesis
    using assms nx
    by (subst find_interval.simps) (simp add: walk_init_def f32_of_u64_small)
qed

section \<open>Both interpolations in closed form\<close>

lemma walk_at_fields:
  "3 \<le> i \<Longrightarrow> walk_at (i - 2) =
     \<lparr>prev_mile = fibw (i - 1), prev_km = fibw i, curr_mile = fibw i, curr_km = fibw (i + 1)\<rparr>"
proof -
  assume "3 \<le> i"
  then have "Suc (i - 2) = i - 1" "Suc (Suc (i - 2)) = i" "Suc (Suc (Suc (i - 2))) = i + 1"
    by simp_all
  then show ?thesis by (simp add: walk_at_def)
qed

lemma fib_interpolate_eq:
  assumes "\<not> f32_lt miles (Finite 5)" "f32_le (Finite 1) miles"
  shows "fib_interpolate miles =
     Some (Inr (f32_add (f32_of_u64 (fibw (exit_index 93 miles 3)))
       (f32_mul (f32_sub miles (f32_of_u64 (fibw (exit_index 93 miles 3 - 1))))
          (f32_div (f32_of_u64 (fibw (exit_index 93 miles 3 + 1) - fibw (exit_index 93 miles 3)))
             (f32_of_u64 (fibw (exit_index 93 miles 3) - fibw (exit_index 93 miles 3 - 1)))))))"
proof -
  have "3 \<le> exit_index 93 miles 3" by (rule exit_index_ge)
  then show ?thesis
    using assms by (simp add: fib_interpolate_def find_interval_walk_init walk_at_fields)
qed

lemma fibw_diff': "2 \<le> i \<Longrightarrow> fibw i - fibw (i - 1) = fibw (i - 2)"
proof -
  assume "2 \<le> i"
  then have "i = Suc (Suc (i - 2))" "i - 1 = Suc (i - 2)" by simp_all
  then show ?thesis using fibw_diff [of "i - 2"] by simp
qed

lemma unat_fibw_ge_3: "4 \<le> n \<Longrightarrow> n \<le> 93 \<Longrightarrow> 3 \<le> unat (fibw n)"
proof -
  assume n: "4 \<le> n" "n \<le> 93"
  have "fib_spec 4 \<le> fib_spec n" using n(1) by (rule fib_spec_mono)
  moreover have "fib_spec 4 = 3" by (simp add: eval_nat_numeral)
  ultimately show ?thesis using n(2) by (simp add: unat_fibw)
qed

lemma fibw_large:
  "fibw 91 = 4660046610375530309" "fibw 92 = 7540113804746346429"
  by (simp_all add: fibw_acc fib_acc_numeral)

lemma f32_of_u64_fibw_91: "f32_of_u64 (fibw 91) = Finite 4660046388107673600"
  by (simp add: fibw_large f32_of_u64_def f32_eval)

lemma f32_of_u64_fibw_92: "f32_of_u64 (fibw 92) = Finite 7540113742973894656"
  by (simp add: fibw_large f32_of_u64_def f32_eval)

lemma f32_le_trans: "f32_le a (Finite y) \<Longrightarrow> y \<le> x \<Longrightarrow> f32_le a (Finite x)"
  by (cases a) simp_all

lemma exit_index_all_pass:
  "i \<le> cap \<Longrightarrow> \<forall>j. i \<le> j \<and> j < cap \<longrightarrow> f32_le (f32_of_u64 (fibw j)) miles
   \<Longrightarrow> exit_index cap miles i = cap"
proof (induction cap miles i rule: exit_index.induct)
  case (1 cap miles i)
  show ?case
  proof (cases "i < cap")
    case True
    with "1.prems" have le: "f32_le (f32_of_u64 (fibw i)) miles" by simp
    with True have "exit_index cap miles i = exit_index cap miles (Suc i)"
      by (simp add: exit_index_pass)
    also have "\<dots> = cap" using True le "1.prems" by (intro "1.IH") simp_all
    finally show ?thesis .
  next
    case False
    with "1.prems" show ?thesis by (simp add: exit_index_at_cap)
  qed
qed

lemma passes_below:
  assumes "f32_le (f32_of_u64 (fibw k)) (Finite x)" "j \<le> k" "k \<le> 93"
  shows "f32_le (f32_of_u64 (fibw j)) (Finite x)"
proof -
  have "fibw j \<le> fibw k" using assms(2,3) by (rule fibw_le)
  then have "f32_le (f32_of_u64 (fibw j)) (f32_of_u64 (fibw k))" by (rule f32_of_u64_mono)
  with assms(1) show ?thesis by (simp add: f32_of_u64_finite del: of_nat_unat)
qed

lemma exit_index_92_exhausted:
  "4660046388107673600 \<le> x \<Longrightarrow> exit_index 92 (Finite x) 2 = 92"
proof -
  assume "4660046388107673600 \<le> x"
  then have "f32_le (f32_of_u64 (fibw 91)) (Finite x)" by (simp add: f32_of_u64_fibw_91)
  then have "\<forall>j. 2 \<le> j \<and> j < 92 \<longrightarrow> f32_le (f32_of_u64 (fibw j)) (Finite x)"
    by (auto intro: passes_below)
  then show ?thesis by (intro exit_index_all_pass) simp_all
qed

lemma exit_index_93_exhausted:
  "7540113742973894656 \<le> x \<Longrightarrow> exit_index 93 (Finite x) 3 = 93"
proof -
  assume "7540113742973894656 \<le> x"
  then have "f32_le (f32_of_u64 (fibw 92)) (Finite x)" by (simp add: f32_of_u64_fibw_92)
  then have "\<forall>j. 3 \<le> j \<and> j < 93 \<longrightarrow> f32_le (f32_of_u64 (fibw j)) (Finite x)"
    by (auto intro: passes_below)
  then show ?thesis by (intro exit_index_all_pass) simp_all
qed

lemma exit_index_below_91:
  assumes "x < 4660046388107673600"
  shows "exit_index 92 (Finite x) 2 \<le> 91" "exit_index 93 (Finite x) 2 = exit_index 92 (Finite x) 2"
proof -
  have "\<not> f32_le (f32_of_u64 (fibw 91)) (Finite x)"
    using assms by (simp add: f32_of_u64_fibw_91)
  then show le: "exit_index 92 (Finite x) 2 \<le> 91" by (intro exit_index_stop) simp_all
  then show "exit_index 93 (Finite x) 2 = exit_index 92 (Finite x) 2"
    by (intro exit_index_cap_irrelevant) simp_all
qed

lemma fib_interpolate_2_63:
  "fib_interpolate (Finite 9223372036854775808) = Some (Inr (Finite 14923729597919920128))"
proof -
  have e: "exit_index 93 (Finite 9223372036854775808) 3 = 93"
    by (rule exit_index_93_exhausted) simp
  have "fibw 94 - fibw 93 = fibw 92" "fibw 93 - fibw 92 = fibw 91"
    using fibw_diff' [of 94] fibw_diff' [of 93] by simp_all
  then show ?thesis
    by (simp add: fib_interpolate_eq e fibw_large fibw_93 f32_of_u64_def f32_sub_def f32_eval)
qed

lemma basic_miles2km_of_float_2_63:
  "basic_miles2km_of_float (Finite 9223372036854775808) = Inl UndefinedConversion"
  by (simp add: basic_miles2km_of_float_def trunc_real_def in_int_range_def)

lemmas walk_eval = fib_interpolate_def find_interval.simps walk_init_def walk_next_def
  walk_overflow_def f32_of_u64_def f32_sub_def f32_eval

lemma fib_interpolate_samples:
  "fib_interpolate (Finite 6) = Some (Inr (Finite (10136235 / 1048576)))"
  "fib_interpolate (Finite 10) = Some (Inr (Finite (4246733 / 262144)))"
  "fib_interpolate (Finite 21) = Some (Inr (Finite 34))"
  "fib_interpolate (Finite 50) = Some (Inr (Finite (10604349 / 131072)))"
  "fib_interpolate (Finite 90) = Some (Inr (Finite (9543233 / 65536)))"
  by (simp_all add: walk_eval)

lemma interpolate_eq_cache_convert:
  "x < 4660046388107673600 \<Longrightarrow> cache_state_ok s \<Longrightarrow>
     fib_interpolate (Finite x) = Some (fst (fib_cache_convert s (Finite x)))"
proof -
  assume x: "x < 4660046388107673600" and ok: "cache_state_ok s"
  show ?thesis
  proof (cases "x < 5")
    case True
    then show ?thesis
      by (simp add: fib_interpolate_def fib_cache_convert_ok [OF ok] cache_convert_fib_table)
  next
    case False
    then have x5: "5 \<le> x" by simp
    have "exit_index 93 (Finite x) 3 = exit_index 93 (Finite x) 2"
      using exit_index_from_5 [OF x5, of 93] by simp
    also have "\<dots> = exit_index 92 (Finite x) 2" using x by (rule exit_index_below_91)
    finally have eq: "exit_index 93 (Finite x) 3 = exit_index 92 (Finite x) 2" .
    have lt: "\<not> 92 \<le> exit_index 92 (Finite x) 2" using exit_index_below_91(1) [OF x] by simp
    show ?thesis
      using x5 lt
      by (simp add: fib_interpolate_eq fib_cache_convert_ok [OF ok] cache_convert_fib_table eq)
  qed
qed

section \<open>The closed form on the real numbers\<close>

lemma sqrt5_sq: "sqrt 5 * sqrt 5 = 5"
  by simp

lemma sqrt5_bounds: "223606 / 100000 < sqrt 5" "sqrt 5 < 223607 / 100000"
proof -
  show "223606 / 100000 < sqrt 5" by (rule real_less_rsqrt) (simp add: power2_eq_square)
  show "sqrt 5 < 223607 / 100000" by (rule real_less_lsqrt) (simp_all add: power2_eq_square)
qed

lemma phi_bounds: "161803 / 100000 < phi" "phi < 1618035 / 1000000"
  using sqrt5_bounds by (simp_all add: phi_def)

lemma phi_gt_1: "1 < phi"
  using phi_bounds(1) by simp

lemma phi_sq: "phi * phi = phi + 1"
  by (simp add: phi_def field_simps)

lemma psi_sq: "psi * psi = psi + 1"
  by (simp add: psi_def field_simps)

lemma phi_psi: "phi * psi = - 1"
  by (simp add: phi_def psi_def field_simps)

lemma inverse_neg_phi: "inverse (- phi) = psi"
proof -
  have "phi \<noteq> 0" using phi_gt_1 by simp
  then have "psi = - 1 / phi" using phi_psi by (simp add: field_simps)
  then show ?thesis by (simp add: inverse_eq_divide)
qed

lemma neg_phi_powi: "(- phi) powi (- int n) = psi ^ n"
proof -
  have "(- phi) powi (- int n) = inverse ((- phi) ^ n)" by (simp add: power_int_minus)
  also have "\<dots> = (inverse (- phi)) ^ n" by (rule power_inverse [symmetric])
  finally show ?thesis by (simp only: inverse_neg_phi)
qed

lemma binet: "(phi ^ n - psi ^ n) / sqrt 5 = real (fib_spec n)"
proof (induction n rule: fib_spec.induct)
  case 1
  show ?case by simp
next
  case 2
  have "phi - psi = sqrt 5" by (simp add: phi_def psi_def field_simps)
  then show ?case by simp
next
  case (3 n)
  have "phi ^ Suc (Suc n) = (phi * phi) * phi ^ n" by simp
  also have "\<dots> = phi ^ Suc n + phi ^ n" by (simp only: phi_sq) (simp add: algebra_simps)
  finally have "phi ^ Suc (Suc n) = phi ^ Suc n + phi ^ n" .
  moreover have "psi ^ Suc (Suc n) = (psi * psi) * psi ^ n" by simp
  then have "psi ^ Suc (Suc n) = psi ^ Suc n + psi ^ n"
    by (simp only: psi_sq) (simp add: algebra_simps)
  ultimately have "(phi ^ Suc (Suc n) - psi ^ Suc (Suc n)) / sqrt 5
      = (phi ^ Suc n - psi ^ Suc n) / sqrt 5 + (phi ^ n - psi ^ n) / sqrt 5"
    by (simp add: field_simps)
  with 3 show ?case by simp
qed

lemma golden_index:
  assumes "0 < y" "phi ^ n \<le> y" "y < phi ^ Suc n"
  shows "\<lfloor>ln y / ln phi\<rfloor> = int n"
proof -
  have "phi powr real_of_int (int n) = phi ^ n" "phi powr real_of_int (int n + 1) = phi ^ Suc n"
    using phi_gt_1 powr_realpow [of phi n] powr_realpow [of phi "Suc n"]
    by (simp_all add: add.commute)
  then have "\<lfloor>log phi y\<rfloor> = int n"
    using assms phi_gt_1 floor_log_eq_powr_iff [of y phi "int n"] by simp
  then show ?thesis by (simp add: log_def)
qed

lemma fib_golden_ratio_eq:
  assumes "dbl_1e_5 \<le> x" "phi ^ n \<le> x * sqrt 5" "x * sqrt 5 < phi ^ Suc n" "n < 1000"
  shows "fib_golden_ratio (Finite x) =
     (if real (fib_spec (Suc n)) - real (fib_spec n) < DBL_EPSILON
      then basic_miles2km_of_float (Finite x)
      else Inr (golden_interpolate x (real (fib_spec n)) (real (fib_spec (Suc n)))
             (real (fib_spec (Suc (Suc n))))))"
proof -
  have "0 < x" using assms(1) by (simp add: dbl_1e_5_def)
  then have "0 < x * sqrt 5" by simp
  then have k: "\<lfloor>ln (x * sqrt 5) / ln phi\<rfloor> = int n"
    using assms(2,3) by (rule golden_index)
  have r: "in_int_range (int n)" using assms(4) by (simp add: in_int_range_def)
  have e: "- int n - 1 = - int (Suc n)" "- int n - 2 = - int (Suc (Suc n))"
    "int n + 1 = int (Suc n)" "int n + 2 = int (Suc (Suc n))"
    by simp_all
  show ?thesis
    using assms(1) r
    by (simp only: fib_golden_ratio.simps k Let_def e neg_phi_powi power_int_of_nat binet)
       (simp split: if_splits)
qed

lemma fib_spec_small:
  "fib_spec 3 = 2" "fib_spec 4 = 3" "fib_spec 5 = 5" "fib_spec 6 = 8" "fib_spec 7 = 13"
  by (simp_all add: eval_nat_numeral)

lemma phi_power_bounds:
  "(161803 / 100000) ^ n \<le> phi ^ n" "phi ^ n \<le> (1618035 / 1000000) ^ n"
  using phi_bounds by (simp_all add: power_mono)

lemma fib_golden_ratio_3: "fib_golden_ratio (Finite 3) = Inr (Finite 5)"
proof -
  have "phi ^ 3 \<le> (1618035 / 1000000) ^ 3" by (rule phi_power_bounds)
  also have "\<dots> \<le> 3 * (223606 / 100000)" by (simp add: power_divide)
  also have "\<dots> \<le> 3 * sqrt 5" using sqrt5_bounds(1) by simp
  finally have lo: "phi ^ 3 \<le> 3 * sqrt 5" .
  have "3 * sqrt 5 < 3 * (223607 / 100000)" using sqrt5_bounds(2) by simp
  also have "\<dots> \<le> (161803 / 100000) ^ 4" by (simp add: power_divide)
  also have "\<dots> \<le> phi ^ 4" by (rule phi_power_bounds)
  finally have hi: "3 * sqrt 5 < phi ^ Suc 3" by simp
  have "dbl_1e_5 \<le> 3" by (simp add: dbl_1e_5_def)
  from fib_golden_ratio_eq [OF this lo hi] show ?thesis
    by (simp add: fib_spec_small DBL_EPSILON_def golden_interpolate_def f32_eval)
qed

lemma basic_miles2km_of_float_3:
  "basic_miles2km_of_float (Finite 3) = Inr (Finite (10125117 / 2097152))"
  by (simp add: basic_miles2km_of_float_def basic_miles2km_def trunc_real_def in_int_range_def
      f32_of_int_def f32_eval)

lemma fib_golden_ratio_left: "fib_golden_ratio (Finite (1269 / 256)) = Inr (Finite (4063 / 512))"
proof -
  have "phi ^ 4 \<le> (1618035 / 1000000) ^ 4" by (rule phi_power_bounds)
  also have "\<dots> \<le> 1269 / 256 * (223606 / 100000)" by (simp add: power_divide)
  also have "\<dots> \<le> 1269 / 256 * sqrt 5" using sqrt5_bounds(1) by simp
  finally have lo: "phi ^ 4 \<le> 1269 / 256 * sqrt 5" .
  have "1269 / 256 * sqrt 5 < 1269 / 256 * (223607 / 100000)" using sqrt5_bounds(2) by simp
  also have "\<dots> \<le> (161803 / 100000) ^ 5" by (simp add: power_divide)
  also have "\<dots> \<le> phi ^ 5" by (rule phi_power_bounds)
  finally have hi: "1269 / 256 * sqrt 5 < phi ^ Suc 4" by simp
  have "dbl_1e_5 \<le> 1269 / 256" by (simp add: dbl_1e_5_def)
  from fib_golden_ratio_eq [OF this lo hi] show ?thesis
    by (simp add: fib_spec_small DBL_EPSILON_def golden_interpolate_def f32_eval)
qed

lemma fib_golden_ratio_right:
  "fib_golden_ratio (Finite (635 / 128)) = Inr (Finite (16640683 / 2097152))"
proof -
  have "phi ^ 5 \<le> (1618035 / 1000000) ^ 5" by (rule phi_power_bounds)
  also have "\<dots> \<le> 635 / 128 * (223606 / 100000)" by (simp add: power_divide)
  also have "\<dots> \<le> 635 / 128 * sqrt 5" using sqrt5_bounds(1) by simp
  finally have lo: "phi ^ 5 \<le> 635 / 128 * sqrt 5" .
  have "635 / 128 * sqrt 5 < 635 / 128 * (223607 / 100000)" using sqrt5_bounds(2) by simp
  also have "\<dots> \<le> (161803 / 100000) ^ 6" by (simp add: power_divide)
  also have "\<dots> \<le> phi ^ 6" by (rule phi_power_bounds)
  finally have hi: "635 / 128 * sqrt 5 < phi ^ Suc 5" by simp
  have "dbl_1e_5 \<le> 635 / 128" by (simp add: dbl_1e_5_def)
  from fib_golden_ratio_eq [OF this lo hi] show ?thesis
    by (simp add: fib_spec_small DBL_EPSILON_def golden_interpolate_def f32_eval)
qed

section \<open>The values of the converters up to 144 miles\<close>

lemma f32_round_powers: "f32_round 1024 = 1024" "f32_round 2048 = 2048"
  by (simp_all add: f32_eval)

lemma f32_round_le_1024: "0 \<le> x \<Longrightarrow> x \<le> 1024 \<Longrightarrow> f32_round x \<le> 1024"
  using f32_round_mono [of x 1024] by (simp add: f32_round_powers)

lemma f32_round_le_2048: "0 \<le> x \<Longrightarrow> x \<le> 2048 \<Longrightarrow> f32_round x \<le> 2048"
  using f32_round_mono [of x 2048] by (simp add: f32_round_powers)

lemma interp_finite:
  assumes "0 \<le> A" "A \<le> 1024" "0 \<le> r" "r \<le> 2" "B \<le> x" "x - B \<le> 1024"
  shows "f32_add (Finite A) (f32_mul (f32_sub (Finite x) (Finite B)) (Finite r)) =
    Finite (interp_val A B r x)"
proof -
  define d where "d = f32_round (x - B)"
  have xb: "0 \<le> x - B" using assms(5) by simp
  have d: "0 \<le> d" "d \<le> 1024"
    using xb assms(6) by (simp_all add: d_def f32_round_nonneg f32_round_le_1024)
  have "rnd32 (x - B) = Finite d"
    unfolding d_def using xb assms(6) by (intro rnd32_finite) simp_all
  then have sub: "f32_sub (Finite x) (Finite B) = Finite d"
    by (simp add: f32_sub_def)
  define p where "p = f32_round (d * r)"
  have dr: "0 \<le> d * r" "d * r \<le> 2048"
    using d assms(3,4) mult_mono [of d 1024 r 2] by simp_all
  then have p: "0 \<le> p" "p \<le> 2048"
    by (simp_all add: p_def f32_round_nonneg f32_round_le_2048)
  have "rnd32 (d * r) = Finite p"
    unfolding p_def using dr by (intro rnd32_finite) simp_all
  then have mul: "f32_mul (Finite d) (Finite r) = Finite p" by simp
  have "rnd32 (A + p) = Finite (f32_round (A + p))"
    using assms(1,2) p by (intro rnd32_finite) simp_all
  then have "f32_add (Finite A) (Finite p) = Finite (f32_round (A + p))" by simp
  then show ?thesis
    unfolding sub mul interp_val_def d_def [symmetric] p_def [symmetric] .
qed

lemma interp_val_mono:
  assumes "0 \<le> A" "0 \<le> r" "B \<le> x" "x \<le> y"
  shows "interp_val A B r x \<le> interp_val A B r y"
proof -
  have xb: "0 \<le> x - B" "x - B \<le> y - B" using assms(3,4) by simp_all
  then have 1: "f32_round (x - B) \<le> f32_round (y - B)" by (rule f32_round_mono)
  have 2: "0 \<le> f32_round (x - B)" using xb(1) by (rule f32_round_nonneg)
  have 3: "0 \<le> f32_round (x - B) * r" using 2 assms(2) by (rule mult_nonneg_nonneg)
  have 4: "f32_round (x - B) * r \<le> f32_round (y - B) * r"
    using 1 assms(2) by (rule mult_right_mono)
  have 5: "f32_round (f32_round (x - B) * r) \<le> f32_round (f32_round (y - B) * r)"
    using 3 4 by (rule f32_round_mono)
  have 6: "0 \<le> f32_round (f32_round (x - B) * r)" using 3 by (rule f32_round_nonneg)
  have "0 \<le> A + f32_round (f32_round (x - B) * r)" using assms(1) 6 by simp
  moreover have "A + f32_round (f32_round (x - B) * r) \<le> A + f32_round (f32_round (y - B) * r)"
    using 5 by simp
  ultimately show ?thesis unfolding interp_val_def by (rule f32_round_mono)
qed

lemma interp_val_ge:
  assumes "0 \<le> A" "0 \<le> r" "B \<le> x"
  shows "f32_round A \<le> interp_val A B r x"
proof -
  have "0 \<le> x - B" using assms(3) by simp
  then have "0 \<le> f32_round (x - B)" by (rule f32_round_nonneg)
  then have "0 \<le> f32_round (x - B) * r" using assms(2) by (rule mult_nonneg_nonneg)
  then have "0 \<le> f32_round (f32_round (x - B) * r)" by (rule f32_round_nonneg)
  then have "A \<le> A + f32_round (f32_round (x - B) * r)" by simp
  with assms(1) show ?thesis unfolding interp_val_def by (rule f32_round_mono)
qed

lemma slopes:
  "rnd32 (5 / 3) = Finite (13981013 / 8388608)"
  "rnd32 (8 / 5) = Finite (13421773 / 8388608)"
  "rnd32 (13 / 8) = Finite (13 / 8)"
  "rnd32 (21 / 13) = Finite (3387707 / 2097152)"
  "rnd32 (34 / 21) = Finite (3395389 / 2097152)"
  "rnd32 (55 / 34) = Finite (13569807 / 8388608)"
  "rnd32 (89 / 55) = Finite (13574293 / 8388608)"
  by (simp_all add: f32_eval)

lemmas bracket_eval = fib_interpolate_def find_interval.simps walk_init_def walk_next_def
  walk_overflow_def f32_of_u64_small slopes

lemma bracket_6:
  assumes "5 \<le> x" "x < 8"
  shows "fib_interpolate (Finite x) = Some (Inr (Finite (interp_val 8 5 (13981013 / 8388608) x)))"
proof -
  have "fib_interpolate (Finite x) = Some (Inr (f32_add (Finite 8)
      (f32_mul (f32_sub (Finite x) (Finite 5)) (Finite (13981013 / 8388608)))))"
    using assms by (simp add: bracket_eval)
  then show ?thesis using assms by (simp add: interp_finite)
qed

lemma bounds_6:
  assumes "5 \<le> x" "x < 8"
  shows "8 \<le> interp_val 8 5 (13981013 / 8388608) x" "interp_val 8 5 (13981013 / 8388608) x \<le> 13"
proof -
  have "f32_round 8 \<le> interp_val 8 5 (13981013 / 8388608) x"
    using assms by (intro interp_val_ge) simp_all
  moreover have "f32_round 8 = 8" by (simp add: f32_eval)
  ultimately show "8 \<le> interp_val 8 5 (13981013 / 8388608) x" by simp
  have "interp_val 8 5 (13981013 / 8388608) x \<le> interp_val 8 5 (13981013 / 8388608) 8"
    using assms by (intro interp_val_mono) simp_all
  moreover have "interp_val 8 5 (13981013 / 8388608) 8 = 13" by (simp add: interp_val_def f32_eval)
  ultimately show "interp_val 8 5 (13981013 / 8388608) x \<le> 13" by simp
qed

lemma bracket_7:
  assumes "8 \<le> x" "x < 13"
  shows "fib_interpolate (Finite x) = Some (Inr (Finite (interp_val 13 8 (13421773 / 8388608) x)))"
proof -
  have "fib_interpolate (Finite x) = Some (Inr (f32_add (Finite 13)
      (f32_mul (f32_sub (Finite x) (Finite 8)) (Finite (13421773 / 8388608)))))"
    using assms by (simp add: bracket_eval)
  then show ?thesis using assms by (simp add: interp_finite)
qed

lemma bounds_7:
  assumes "8 \<le> x" "x < 13"
  shows "13 \<le> interp_val 13 8 (13421773 / 8388608) x" "interp_val 13 8 (13421773 / 8388608) x \<le> 21"
proof -
  have "f32_round 13 \<le> interp_val 13 8 (13421773 / 8388608) x"
    using assms by (intro interp_val_ge) simp_all
  moreover have "f32_round 13 = 13" by (simp add: f32_eval)
  ultimately show "13 \<le> interp_val 13 8 (13421773 / 8388608) x" by simp
  have "interp_val 13 8 (13421773 / 8388608) x \<le> interp_val 13 8 (13421773 / 8388608) 13"
    using assms by (intro interp_val_mono) simp_all
  moreover have "interp_val 13 8 (13421773 / 8388608) 13 = 21" by (simp add: interp_val_def f32_eval)
  ultimately show "interp_val 13 8 (13421773 / 8388608) x \<le> 21" by simp
qed

lemma bracket_8:
  assumes "13 \<le> x" "x < 21"
  shows "fib_interpolate (Finite x) = Some (Inr (Finite (interp_val 21 13 (13 / 8) x)))"
proof -
  have "fib_interpolate (Finite x) = Some (Inr (f32_add (Finite 21)
      (f32_mul (f32_sub (Finite x) (Finite 13)) (Finite (13 / 8)))))"
    using assms by (simp add: bracket_eval)
  then show ?thesis using assms by (simp add: interp_finite)
qed

lemma bounds_8:
  assumes "13 \<le> x" "x < 21"
  shows "21 \<le> interp_val 21 13 (13 / 8) x" "interp_val 21 13 (13 / 8) x \<le> 34"
proof -
  have "f32_round 21 \<le> interp_val 21 13 (13 / 8) x"
    using assms by (intro interp_val_ge) simp_all
  moreover have "f32_round 21 = 21" by (simp add: f32_eval)
  ultimately show "21 \<le> interp_val 21 13 (13 / 8) x" by simp
  have "interp_val 21 13 (13 / 8) x \<le> interp_val 21 13 (13 / 8) 21"
    using assms by (intro interp_val_mono) simp_all
  moreover have "interp_val 21 13 (13 / 8) 21 = 34" by (simp add: interp_val_def f32_eval)
  ultimately show "interp_val 21 13 (13 / 8) x \<le> 34" by simp
qed

lemma bracket_9:
  assumes "21 \<le> x" "x < 34"
  shows "fib_interpolate (Finite x) = Some (Inr (Finite (interp_val 34 21 (3387707 / 2097152) x)))"
proof -
  have "fib_interpolate (Finite x) = Some (Inr (f32_add (Finite 34)
      (f32_mul (f32_sub (Finite x) (Finite 21)) (Finite (3387707 / 2097152)))))"
    using assms by (simp add: bracket_eval)
  then show ?thesis using assms by (simp add: interp_finite)
qed

lemma bounds_9:
  assumes "21 \<le> x" "x < 34"
  shows "34 \<le> interp_val 34 21 (3387707 / 2097152) x" "interp_val 34 21 (3387707 / 2097152) x \<le> 55"
proof -
  have "f32_round 34 \<le> interp_val 34 21 (3387707 / 2097152) x"
    using assms by (intro interp_val_ge) simp_all
  moreover have "f32_round 34 = 34" by (simp add: f32_eval)
  ultimately show "34 \<le> interp_val 34 21 (3387707 / 2097152) x" by simp
  have "interp_val 34 21 (3387707 / 2097152) x \<le> interp_val 34 21 (3387707 / 2097152) 34"
    using assms by (intro interp_val_mono) simp_all
  moreover have "interp_val 34 21 (3387707 / 2097152) 34 = 55" by (simp add: interp_val_def f32_eval)
  ultimately show "interp_val 34 21 (3387707 / 2097152) x \<le> 55" by simp
qed

lemma bracket_10:
  assumes "34 \<le> x" "x < 55"
  shows "fib_interpolate (Finite x) = Some (Inr (Finite (interp_val 55 34 (3395389 / 2097152) x)))"
proof -
  have "fib_interpolate (Finite x) = Some (Inr (f32_add (Finite 55)
      (f32_mul (f32_sub (Finite x) (Finite 34)) (Finite (3395389 / 2097152)))))"
    using assms by (simp add: bracket_eval)
  then show ?thesis using assms by (simp add: interp_finite)
qed

lemma bounds_10:
  assumes "34 \<le> x" "x < 55"
  shows "55 \<le> interp_val 55 34 (3395389 / 2097152) x" "interp_val 55 34 (3395389 / 2097152) x \<le> 89"
proof -
  have "f32_round 55 \<le> interp_val 55 34 (3395389 / 2097152) x"
    using assms by (intro interp_val_ge) simp_all
  moreover have "f32_round 55 = 55" by (simp add: f32_eval)
  ultimately show "55 \<le> interp_val 55 34 (3395389 / 2097152) x" by simp
  have "interp_val 55 34 (3395389 / 2097152) x \<le> interp_val 55 34 (3395389 / 2097152) 55"
    using assms by (intro interp_val_mono) simp_all
  moreover have "interp_val 55 34 (3395389 / 2097152) 55 = 89" by (simp add: interp_val_def f32_eval)
  ultimately show "interp_val 55 34 (3395389 / 2097152) x \<le> 89" by simp
qed

lemma bracket_11:
  assumes "55 \<le> x" "x < 89"
  shows "fib_interpolate (Finite x) = Some (Inr (Finite (interp_val 89 55 (13569807 / 8388608) x)))"
proof -
  have "fib_interpolate (Finite x) = Some (Inr (f32_add (Finite 89)
      (f32_mul (f32_sub (Finite x) (Finite 55)) (Finite (13569807 / 8388608)))))"
    using assms by (simp add: bracket_eval)
  then show ?thesis using assms by (simp add: interp_finite)
qed

lemma bounds_11:
  assumes "55 \<le> x" "x < 89"
  shows "89 \<le> interp_val 89 55 (13569807 / 8388608) x" "interp_val 89 55 (13569807 / 8388608) x \<le> 144"
proof -
  have "f32_round 89 \<le> interp_val 89 55 (13569807 / 8388608) x"
    using assms by (intro interp_val_ge) simp_all
  moreover have "f32_round 89 = 89" by (simp add: f32_eval)
  ultimately show "89 \<le> interp_val 89 55 (13569807 / 8388608) x" by simp
  have "interp_val 89 55 (13569807 / 8388608) x \<le> interp_val 89 55 (13569807 / 8388608) 89"
    using assms by (intro interp_val_mono) simp_all
  moreover have "interp_val 89 55 (13569807 / 8388608) 89 = 144" by (simp add: interp_val_def f32_eval)
  ultimately show "interp_val 89 55 (13569807 / 8388608) x \<le> 144" by simp
qed

lemma bracket_12:
  assumes "89 \<le> x" "x < 144"
  shows "fib_interpolate (Finite x) = Some (Inr (Finite (interp_val 144 89 (13574293 / 8388608) x)))"
proof -
  have "fib_interpolate (Finite x) = Some (Inr (f32_add (Finite 144)
      (f32_mul (f32_sub (Finite x) (Finite 89)) (Finite (13574293 / 8388608)))))"
    using assms by (simp add: bracket_eval)
  then show ?thesis using assms by (simp add: interp_finite)
qed

lemma bounds_12:
  assumes "89 \<le> x" "x < 144"
  shows "144 \<le> interp_val 144 89 (13574293 / 8388608) x" "interp_val 144 89 (13574293 / 8388608) x \<le> 233"
proof -
  have "f32_round 144 \<le> interp_val 144 89 (13574293 / 8388608) x"
    using assms by (intro interp_val_ge) simp_all
  moreover have "f32_round 144 = 144" by (simp add: f32_eval)
  ultimately show "144 \<le> interp_val 144 89 (13574293 / 8388608) x" by simp
  have "interp_val 144 89 (13574293 / 8388608) x \<le> interp_val 144 89 (13574293 / 8388608) 144"
    using assms by (intro interp_val_mono) simp_all
  moreover have "interp_val 144 89 (13574293 / 8388608) 144 = 233" by (simp add: interp_val_def f32_eval)
  ultimately show "interp_val 144 89 (13574293 / 8388608) x \<le> 233" by simp
qed

lemma flt_constant: "rnd32 (1609344 / 1000000) = Finite (3375039 / 2097152)"
  by (simp add: f32_eval)

lemma basic_miles2km_val:
  assumes "0 \<le> m" "m \<le> 1024"
  shows "basic_miles2km m = Finite (f32_round (f32_round (of_int m) * (3375039 / 2097152)))"
proof -
  have m: "(0::real) \<le> of_int m" "(of_int m :: real) \<le> 1024" using assms by simp_all
  then have "rnd32 (of_int m) = Finite (f32_round (of_int m))"
    by (intro rnd32_finite) simp_all
  moreover have d: "0 \<le> f32_round (of_int m)" "f32_round (of_int m) \<le> 1024"
    using m by (simp_all add: f32_round_nonneg f32_round_le_1024)
  have "0 \<le> f32_round (of_int m) * (3375039 / 2097152)"
    "f32_round (of_int m) * (3375039 / 2097152) \<le> 2 ^ 64"
    using d by simp_all
  then have "rnd32 (f32_round (of_int m) * (3375039 / 2097152)) =
      Finite (f32_round (f32_round (of_int m) * (3375039 / 2097152)))"
    by (rule rnd32_finite)
  ultimately show ?thesis
    unfolding basic_miles2km_def f32_of_int_def flt_constant by simp
qed

lemma basic_miles2km_of_float_val:
  assumes "0 \<le> x" "x \<le> 1024"
  shows "basic_miles2km_of_float (Finite x) = Inr (Finite (basic_val x))"
proof -
  have f: "0 \<le> \<lfloor>x\<rfloor>" "\<lfloor>x\<rfloor> \<le> 1024" using assms by (simp_all add: floor_le_iff le_floor_iff)
  then show ?thesis
    using assms(1)
    by (simp add: basic_miles2km_of_float_def trunc_real_def in_int_range_def
        basic_miles2km_val basic_val_def)
qed

lemma basic_val_mono:
  assumes "0 \<le> x" "x \<le> y"
  shows "basic_val x \<le> basic_val y"
proof -
  have f: "0 \<le> \<lfloor>x\<rfloor>" "\<lfloor>x\<rfloor> \<le> \<lfloor>y\<rfloor>" using assms by (simp_all add: floor_mono)
  then have 1: "(0::real) \<le> of_int \<lfloor>x\<rfloor>" "(of_int \<lfloor>x\<rfloor> :: real) \<le> of_int \<lfloor>y\<rfloor>" by simp_all
  then have 2: "f32_round (of_int \<lfloor>x\<rfloor>) \<le> f32_round (of_int \<lfloor>y\<rfloor>)" by (rule f32_round_mono)
  have 3: "0 \<le> f32_round (of_int \<lfloor>x\<rfloor>)" using 1(1) by (rule f32_round_nonneg)
  have "0 \<le> f32_round (of_int \<lfloor>x\<rfloor>) * (3375039 / 2097152)" using 3 by simp
  moreover have "f32_round (of_int \<lfloor>x\<rfloor>) * (3375039 / 2097152)
      \<le> f32_round (of_int \<lfloor>y\<rfloor>) * (3375039 / 2097152)" using 2 by simp
  ultimately show ?thesis unfolding basic_val_def by (rule f32_round_mono)
qed

lemma bounds_low:
  assumes "0 \<le> x" "x < 5"
  shows "basic_val x \<le> 8"
proof -
  have "\<lfloor>x\<rfloor> \<le> 4" using assms(2) by (simp add: floor_le_iff)
  moreover have "\<lfloor>4 :: real\<rfloor> = 4" by simp
  ultimately have "\<lfloor>x\<rfloor> \<le> \<lfloor>4 :: real\<rfloor>" by simp
  then have "x \<le> 4 \<or> \<lfloor>x\<rfloor> = 4" using assms by linarith
  have "basic_val x \<le> basic_val 4"
  proof -
    have f: "0 \<le> \<lfloor>x\<rfloor>" using assms(1) by simp
    have 1: "(0::real) \<le> of_int \<lfloor>x\<rfloor>" "(of_int \<lfloor>x\<rfloor> :: real) \<le> 4"
      using f \<open>\<lfloor>x\<rfloor> \<le> 4\<close> by simp_all
    then have 2: "f32_round (of_int \<lfloor>x\<rfloor>) \<le> f32_round 4" by (rule f32_round_mono)
    have 3: "0 \<le> f32_round (of_int \<lfloor>x\<rfloor>)" using 1(1) by (rule f32_round_nonneg)
    have "0 \<le> f32_round (of_int \<lfloor>x\<rfloor>) * (3375039 / 2097152)" using 3 by simp
    moreover have "f32_round (of_int \<lfloor>x\<rfloor>) * (3375039 / 2097152)
        \<le> f32_round 4 * (3375039 / 2097152)" using 2 by simp
    ultimately show ?thesis unfolding basic_val_def by (simp add: f32_round_mono)
  qed
  moreover have "basic_val 4 = 3375039 / 524288" by (simp add: basic_val_def f32_eval)
  ultimately show ?thesis by simp
qed

lemma fib_interpolate_km:
  assumes "0 \<le> x" "x < 144"
  shows "fib_interpolate (Finite x) = Some (Inr (Finite (km_val x)))"
proof -
  consider "x < 5" | "5 \<le> x" "x < 8" | "8 \<le> x" "x < 13" | "13 \<le> x" "x < 21"
    | "21 \<le> x" "x < 34" | "34 \<le> x" "x < 55" | "55 \<le> x" "x < 89" | "89 \<le> x" "x < 144"
    using assms by linarith
  then show ?thesis
  proof cases
    case 1
    then show ?thesis
      using assms by (simp add: fib_interpolate_def basic_miles2km_of_float_val km_val_def)
  next
    case 2 then show ?thesis by (simp add: bracket_6 km_val_def)
  next
    case 3 then show ?thesis by (simp add: bracket_7 km_val_def)
  next
    case 4 then show ?thesis by (simp add: bracket_8 km_val_def)
  next
    case 5 then show ?thesis by (simp add: bracket_9 km_val_def)
  next
    case 6 then show ?thesis by (simp add: bracket_10 km_val_def)
  next
    case 7 then show ?thesis by (simp add: bracket_11 km_val_def)
  next
    case 8 then show ?thesis by (simp add: bracket_12 km_val_def)
  qed
qed

lemma km_val_bounds:
  assumes "0 \<le> x" "x < 144"
  shows "(x < 5 \<longrightarrow> km_val x \<le> 8) \<and> (5 \<le> x \<longrightarrow> 8 \<le> km_val x) \<and>
    (x < 8 \<longrightarrow> km_val x \<le> 13) \<and> (8 \<le> x \<longrightarrow> 13 \<le> km_val x) \<and>
    (x < 13 \<longrightarrow> km_val x \<le> 21) \<and> (13 \<le> x \<longrightarrow> 21 \<le> km_val x) \<and>
    (x < 21 \<longrightarrow> km_val x \<le> 34) \<and> (21 \<le> x \<longrightarrow> 34 \<le> km_val x) \<and>
    (x < 34 \<longrightarrow> km_val x \<le> 55) \<and> (34 \<le> x \<longrightarrow> 55 \<le> km_val x) \<and>
    (x < 55 \<longrightarrow> km_val x \<le> 89) \<and> (55 \<le> x \<longrightarrow> 89 \<le> km_val x) \<and>
    (x < 89 \<longrightarrow> km_val x \<le> 144) \<and> (89 \<le> x \<longrightarrow> 144 \<le> km_val x)"
proof -
  consider "x < 5" | "5 \<le> x" "x < 8" | "8 \<le> x" "x < 13" | "13 \<le> x" "x < 21"
    | "21 \<le> x" "x < 34" | "34 \<le> x" "x < 55" | "55 \<le> x" "x < 89" | "89 \<le> x" "x < 144"
    using assms by linarith
  then show ?thesis
  proof cases
    case 1
    then show ?thesis using bounds_low [OF assms(1)] by (simp add: km_val_def)
  next
    case 2 then show ?thesis using bounds_6 [of x] by (simp add: km_val_def)
  next
    case 3 then show ?thesis using bounds_7 [of x] by (simp add: km_val_def)
  next
    case 4 then show ?thesis using bounds_8 [of x] by (simp add: km_val_def)
  next
    case 5 then show ?thesis using bounds_9 [of x] by (simp add: km_val_def)
  next
    case 6 then show ?thesis using bounds_10 [of x] by (simp add: km_val_def)
  next
    case 7 then show ?thesis using bounds_11 [of x] by (simp add: km_val_def)
  next
    case 8 then show ?thesis using bounds_12 [of x] by (simp add: km_val_def)
  qed
qed

lemma km_val_mono:
  assumes "0 \<le> x" "x \<le> y" "y < 144"
  shows "km_val x \<le> km_val y"
proof -
  have y: "0 \<le> y" and x: "x < 144" using assms by simp_all
  note bx = km_val_bounds [OF assms(1) x] and bnd = km_val_bounds [OF y assms(3)]
  consider "x < 5" | "5 \<le> x" "x < 8" | "8 \<le> x" "x < 13" | "13 \<le> x" "x < 21"
    | "21 \<le> x" "x < 34" | "34 \<le> x" "x < 55" | "55 \<le> x" "x < 89" | "89 \<le> x" "x < 144"
    using assms by linarith
  then show ?thesis
  proof cases
    case 1
    show ?thesis
    proof (cases "y < 5")
      case True
      with 1 show ?thesis using basic_val_mono [OF assms(1,2)] by (simp add: km_val_def)
    next
      case False with 1 bx bnd show ?thesis by simp
    qed
  next
    case 2
    show ?thesis
    proof (cases "y < 8")
      case True
      with 2 assms(2) show ?thesis
        using interp_val_mono [of 8 "13981013 / 8388608" 5 x y] by (simp add: km_val_def)
    next
      case False with 2 bx bnd show ?thesis by simp
    qed
  next
    case 3
    show ?thesis
    proof (cases "y < 13")
      case True
      with 3 assms(2) show ?thesis
        using interp_val_mono [of 13 "13421773 / 8388608" 8 x y] by (simp add: km_val_def)
    next
      case False with 3 bx bnd show ?thesis by simp
    qed
  next
    case 4
    show ?thesis
    proof (cases "y < 21")
      case True
      with 4 assms(2) show ?thesis
        using interp_val_mono [of 21 "13 / 8" 13 x y] by (simp add: km_val_def)
    next
      case False with 4 bx bnd show ?thesis by simp
    qed
  next
    case 5
    show ?thesis
    proof (cases "y < 34")
      case True
      with 5 assms(2) show ?thesis
        using interp_val_mono [of 34 "3387707 / 2097152" 21 x y] by (simp add: km_val_def)
    next
      case False with 5 bx bnd show ?thesis by simp
    qed
  next
    case 6
    show ?thesis
    proof (cases "y < 55")
      case True
      with 6 assms(2) show ?thesis
        using interp_val_mono [of 55 "3395389 / 2097152" 34 x y] by (simp add: km_val_def)
    next
      case False with 6 bx bnd show ?thesis by simp
    qed
  next
    case 7
    show ?thesis
    proof (cases "y < 89")
      case True
      with 7 assms(2) show ?thesis
        using interp_val_mono [of 89 "13569807 / 8388608" 55 x y] by (simp add: km_val_def)
    next
      case False with 7 bx bnd show ?thesis by simp
    qed
  next
    case 8
    with assms(2,3) show ?thesis
      using interp_val_mono [of 144 "13574293 / 8388608" 89 x y] by (simp add: km_val_def)
  qed
qed

section \<open>Properties of the generator\<close>

text \<open>
  Claim C6. For every \<open>n\<close> with \<open>2 \<le> n \<le> 93\<close>,
  \<open>fibonacci n = fibonacci (n - 1) + fibonacci (n - 2)\<close> in 64-bit arithmetic, and the
  base cases are \<open>fibonacci 0 = 0\<close> and \<open>fibonacci 1 = 1\<close>.
\<close>

theorem fibonacci_recurrence:
  "fibonacci 0 = 0 \<and> fibonacci 1 = 1 \<and>
   (\<forall>n. 2 \<le> n \<and> n \<le> 93 \<longrightarrow> fibonacci n = fibonacci (n - 1) + fibonacci (n - 2))"
proof (intro conjI allI impI)
  show "fibonacci 0 = 0" by (simp add: fibonacci_def)
  show "fibonacci 1 = 1" by (simp add: fibonacci_def)
next
  fix n :: int
  assume n: "2 \<le> n \<and> n \<le> 93"
  consider "n = 2" | "n = 3" | "4 \<le> n" using n by linarith
  then show "fibonacci n = fibonacci (n - 1) + fibonacci (n - 2)"
  proof cases
    case 1
    then show ?thesis
      by (simp add: fibonacci_def fib_loop.simps)
  next
    case 2
    then show ?thesis
      by (simp add: fibonacci_def fib_loop.simps)
  next
    case 3
    define k where "k = nat (n - 3)"
    from 3 have k: "nat (n - 1) = Suc (Suc k)" unfolding k_def by linarith
    from k 3 have k1: "nat (n - 1 - 1) = Suc k" and k2: "nat (n - 2 - 1) = k" by linarith+
    have "fibonacci n = pair_iter (Suc (Suc k)) 0 1"
      using 3 k by (simp add: fibonacci_pair_iter)
    also have "\<dots> = pair_iter (Suc k) 0 1 + pair_iter k 0 1" by (rule pair_iter_rec)
    also have "pair_iter (Suc k) 0 1 = fibonacci (n - 1)"
      using 3 k1 by (simp add: fibonacci_pair_iter)
    also have "pair_iter k 0 1 = fibonacci (n - 2)"
      using 3 k2 by (simp add: fibonacci_pair_iter)
    finally show ?thesis .
  qed
qed

theorem fibonacci_recurrence_witness:
  "fibonacci 0 = 0 \<and> fibonacci 1 = 1 \<and> fibonacci 10 = fibonacci 9 + fibonacci 8 \<and>
   fibonacci 10 = 55"
proof -
  have "fibonacci 10 = fibonacci (10 - 1) + fibonacci (10 - 2)"
    using fibonacci_recurrence by simp
  moreover have "fibonacci 10 = 55"
    by (simp add: fibonacci_def fib_loop.simps)
  ultimately show ?thesis
    using fibonacci_recurrence by simp
qed

lemma fibonacci_unat: "n \<le> 93 \<Longrightarrow> unat (fibonacci (int n)) = fib_spec n"
  by (simp add: fibonacci_fibw unat_fibw)

text \<open>
  Claim C7. \<open>fibonacci 93\<close> is 12200160415121876738 and no addition wrapped around on
  the way: up to index 93 the 64-bit result is the Fibonacci number itself, which is below
  \<open>2 ^ 64\<close> (the next one is not). The table of \<open>fib_cache_convert\<close> holds the
  indices 0 to 93 and no call reads or writes outside it. In the model an access outside
  the array is the error \<open>OutOfBounds\<close>, and no call returns it.
\<close>

theorem fibonacci_93_no_overflow:
  "fibonacci 93 = 12200160415121876738 \<and>
   (\<forall>n \<le> 93. unat (fibonacci (int n)) = fib_spec n) \<and>
   fib_spec 93 < 2 ^ 64 \<and> 2 ^ 64 \<le> fib_spec 94 \<and>
   length fib_table = 94 \<and> (\<forall>n < 94. fib_table ! n = fibonacci (int n)) \<and>
   (\<forall>s miles. cache_state_ok s \<longrightarrow>
      fst (fib_cache_convert s miles) \<noteq> Inl OutOfBounds \<and>
      cache (snd (fib_cache_convert s miles)) = fib_table)"
proof (intro conjI allI impI)
  have "fibonacci (int 93) = fibw 93" by (rule fibonacci_fibw)
  then show "fibonacci 93 = 12200160415121876738" by (simp add: fibw_93)
  show "fib_spec 93 < 2 ^ 64" by (simp add: fib_spec_93)
  show "2 ^ 64 \<le> fib_spec 94" by (simp add: fib_spec_94)
  show "length fib_table = 94" by (rule length_fib_table)
next
  fix n :: nat assume "n \<le> 93"
  then show "unat (fibonacci (int n)) = fib_spec n" by (rule fibonacci_unat)
next
  fix n :: nat assume "n < 94"
  then show "fib_table ! n = fibonacci (int n)" by (simp add: nth_fib_table fibonacci_fibw)
next
  fix s miles assume ok: "cache_state_ok s"
  show "fst (fib_cache_convert s miles) \<noteq> Inl OutOfBounds"
    by (simp add: fib_cache_convert_ok [OF ok] cache_convert_in_bounds)
  show "cache (snd (fib_cache_convert s miles)) = fib_table"
    by (rule fib_cache_convert_ok [OF ok])
qed

theorem fibonacci_93_no_overflow_witness:
  "unat (fibonacci 93) = fib_spec 93 \<and> fib_table ! 93 = fibonacci 93 \<and>
   cache_state_ok cache_state_init \<and>
   fst (fib_cache_convert cache_state_init (Finite 10)) \<noteq> Inl OutOfBounds \<and>
   cache (snd (fib_cache_convert cache_state_init (Finite 10))) = fib_table"
proof -
  note claim = fibonacci_93_no_overflow
  from claim have a: "\<forall>n \<le> 93. unat (fibonacci (int n)) = fib_spec n" by (elim conjE)
  from claim have b: "\<forall>n < 94. fib_table ! n = fibonacci (int n)" by (elim conjE)
  from claim have c: "\<forall>s miles. cache_state_ok s \<longrightarrow>
      fst (fib_cache_convert s miles) \<noteq> Inl OutOfBounds \<and>
      cache (snd (fib_cache_convert s miles)) = fib_table" by (elim conjE)
  have "unat (fibonacci (int 93)) = fib_spec 93" using a by (elim allE [of _ 93]) simp
  moreover have "fib_table ! 93 = fibonacci (int 93)" using b by (elim allE [of _ 93]) simp
  moreover note cache_state_init_ok c [rule_format, OF cache_state_init_ok, of "Finite 10"]
  ultimately show ?thesis by simp
qed

section \<open>Properties of the cached table\<close>

text \<open>
  Claim C10. \<open>fib_cache_convert\<close> is deterministic across calls. The first call, on
  the zeroed table, leaves the state \<open>s1\<close> whose table holds \<open>cache[n] = F n\<close> for
  \<open>0 \<le> n \<le> 93\<close>; every call in state \<open>s1\<close> returns what a first call returns
  on the same input and leaves \<open>s1\<close> as it is, so that every later call is again a call
  in state \<open>s1\<close>.
\<close>

theorem fib_cache_convert_deterministic:
  "fib_cache_convert cache_state_init miles0 = (r0, s1) \<Longrightarrow>
     cache s1 = fib_table \<and> (\<forall>n < 94. cache s1 ! n = fibonacci (int n)) \<and>
     (\<forall>miles. fst (fib_cache_convert s1 miles) = fst (fib_cache_convert cache_state_init miles) \<and>
        snd (fib_cache_convert s1 miles) = s1)"
  by (auto simp: fib_cache_convert_first fib_cache_convert_later nth_fib_table fibonacci_fibw)

theorem fib_cache_convert_deterministic_witness:
  "fib_cache_convert cache_state_init (Finite 10) =
     (cache_convert fib_table (Finite 10), \<lparr>cache = fib_table, initialized = 1\<rparr>) \<and>
   fst (fib_cache_convert \<lparr>cache = fib_table, initialized = 1\<rparr> (Finite 21)) =
     fst (fib_cache_convert cache_state_init (Finite 21)) \<and>
   snd (fib_cache_convert \<lparr>cache = fib_table, initialized = 1\<rparr> (Finite 21)) =
     \<lparr>cache = fib_table, initialized = 1\<rparr>"
  using fib_cache_convert_deterministic [OF fib_cache_convert_first [of "Finite 10"]]
    fib_cache_convert_first [of "Finite 10"]
  by simp

section \<open>Agreement of the two interpolations\<close>

text \<open>
  Claim C3, as amended. For every finite \<open>miles\<close> below the \<^verbatim>\<open>float\<close> value of
  \<open>F 91\<close>, which is 4660046388107673600, \<open>fib_interpolate\<close> and
  \<open>fib_cache_convert\<close> return the same value, whatever the state of the cache (fresh or
  initialised); the sample inputs 6, 10, 21, 50 and 90 are among them.
\<close>

theorem interpolation_agreement:
  "x < 4660046388107673600 \<Longrightarrow> cache_state_ok s \<Longrightarrow>
     fib_interpolate (Finite x) = Some (fst (fib_cache_convert s (Finite x)))"
  by (rule interpolate_eq_cache_convert)

theorem interpolation_agreement_witness:
  "cache_state_ok cache_state_init \<and>
   fst (fib_cache_convert cache_state_init (Finite 6)) = Inr (Finite (10136235 / 1048576)) \<and>
   fst (fib_cache_convert cache_state_init (Finite 10)) = Inr (Finite (4246733 / 262144)) \<and>
   fst (fib_cache_convert cache_state_init (Finite 21)) = Inr (Finite 34) \<and>
   fst (fib_cache_convert cache_state_init (Finite 50)) = Inr (Finite (10604349 / 131072)) \<and>
   fst (fib_cache_convert cache_state_init (Finite 90)) = Inr (Finite (9543233 / 65536))"
  using interpolation_agreement [of 6, OF _ cache_state_init_ok]
    interpolation_agreement [of 10, OF _ cache_state_init_ok]
    interpolation_agreement [of 21, OF _ cache_state_init_ok]
    interpolation_agreement [of 50, OF _ cache_state_init_ok]
    interpolation_agreement [of 90, OF _ cache_state_init_ok]
  by (simp add: fib_interpolate_samples cache_state_init_ok)

text \<open>
  Claim C3 as stated, for every input, fails at \<open>miles = 2 ^ 63\<close>: the search on the
  table runs to index 92 and \<open>fib_cache_convert\<close> calls \<^verbatim>\<open>basic_miles2km\<close>, whose
  \<^verbatim>\<open>int\<close> parameter cannot hold the value, while \<open>fib_interpolate\<close> interpolates
  and returns 14923729597919920128.
\<close>

theorem interpolation_agreement_counterexample:
  "fib_interpolate (Finite 9223372036854775808) \<noteq>
     Some (fst (fib_cache_convert cache_state_init (Finite 9223372036854775808)))"
proof -
  have "exit_index 92 (Finite 9223372036854775808) 2 = 92"
    by (rule exit_index_92_exhausted) simp
  then have "fst (fib_cache_convert cache_state_init (Finite 9223372036854775808)) =
      Inl UndefinedConversion"
    by (simp add: fib_cache_convert_first cache_convert_fib_table basic_miles2km_of_float_2_63)
  then show ?thesis by (simp add: fib_interpolate_2_63)
qed

section \<open>Inputs beyond the table\<close>

text \<open>
  Claim C4, as amended. \<open>fib_interpolate\<close> does not delegate to the exact converter
  for large inputs: when its overflow check fires, for every \<open>miles\<close> from the
  \<^verbatim>\<open>float\<close> value of \<open>F 92\<close> on (7540113742973894656), it leaves the loop and
  interpolates on the last pair, \<open>F 93 + (miles - F 92) * (F 92 / F 91)\<close> in
  \<^verbatim>\<open>float\<close> arithmetic. Nothing is stated here about the value of
  \<open>fib_cache_convert\<close> beyond its table.
\<close>

theorem table_exhausted:
  "7540113742973894656 \<le> x \<Longrightarrow>
     fib_interpolate (Finite x) =
       Some (Inr (f32_add (f32_of_u64 (fibonacci 93))
         (f32_mul (f32_sub (Finite x) (f32_of_u64 (fibonacci 92)))
            (f32_div (f32_of_u64 (fibonacci 92)) (f32_of_u64 (fibonacci 91))))))"
proof -
  assume x: "7540113742973894656 \<le> x"
  then have e: "exit_index 93 (Finite x) 3 = 93" by (rule exit_index_93_exhausted)
  have d: "fibw 94 - fibw 93 = fibw 92" "fibw 93 - fibw 92 = fibw 91"
    using fibw_diff' [of 94] fibw_diff' [of 93] by simp_all
  have f: "fibonacci 93 = fibw 93" "fibonacci 92 = fibw 92" "fibonacci 91 = fibw 91"
    using fibonacci_fibw [of 93] fibonacci_fibw [of 92] fibonacci_fibw [of 91] by simp_all
  show ?thesis
    using x by (simp add: fib_interpolate_eq e d f)
qed

theorem table_exhausted_witness:
  "(7540113742973894656 :: real) \<le> 9223372036854775808 \<and>
   fib_interpolate (Finite 9223372036854775808) =
     Some (Inr (f32_add (f32_of_u64 (fibonacci 93))
       (f32_mul (f32_sub (Finite 9223372036854775808) (f32_of_u64 (fibonacci 92)))
          (f32_div (f32_of_u64 (fibonacci 92)) (f32_of_u64 (fibonacci 91)))))) \<and>
   fib_interpolate (Finite 9223372036854775808) = Some (Inr (Finite 14923729597919920128))"
proof -
  have h: "(7540113742973894656 :: real) \<le> 9223372036854775808" by simp
  from table_exhausted [OF h] h show ?thesis
    by (simp add: fib_interpolate_2_63)
qed

text \<open>
  Claim C4 as stated fails for \<open>fib_interpolate\<close> at \<open>miles = 2 ^ 63\<close>, which is
  above \<open>F 92\<close>: the result is the interpolated 14923729597919920128, not the result
  of \<^verbatim>\<open>basic_miles2km(miles)\<close>, whose \<^verbatim>\<open>int\<close> parameter cannot hold the
  value, and not the product of \<open>miles\<close> and \<^verbatim>\<open>1.609344f\<close> either, which is
  14843578498789933056.
\<close>

theorem table_exhausted_counterexample:
  "fib_interpolate (Finite 9223372036854775808) \<noteq>
     Some (basic_miles2km_of_float (Finite 9223372036854775808)) \<and>
   fib_interpolate (Finite 9223372036854775808) \<noteq>
     Some (Inr (f32_mul (Finite 9223372036854775808) (rnd32 (1609344 / 1000000))))"
proof -
  have "f32_mul (Finite 9223372036854775808) (rnd32 (1609344 / 1000000)) =
      Finite 14843578498789933056"
    by (simp add: f32_eval)
  then show ?thesis
    by (simp add: fib_interpolate_2_63 basic_miles2km_of_float_2_63)
qed

section \<open>The denominators of the interpolation\<close>

text \<open>
  Claim C9. For every finite \<open>miles \<ge> 5\<close> the walk of \<open>fib_interpolate\<close> ends, and
  the denominator \<^verbatim>\<open>curr_mile - prev_mile\<close> it ends with is at least 3, as a 64-bit
  integer and after its conversion to \<^verbatim>\<open>float\<close>; the same holds for the
  denominator \<^verbatim>\<open>cache[i] - cache[i-1]\<close> of \<open>fib_cache_convert\<close> whenever the
  search stops below \<^verbatim>\<open>MAX_CACHE - 2\<close>, that is whenever the function interpolates.
  So neither division is a division by zero.
\<close>

theorem interpolation_denominators:
  "5 \<le> x \<Longrightarrow>
     (\<exists>w d. find_interval (Finite x) walk_init = Some w \<and>
        3 \<le> unat (curr_mile w - prev_mile w) \<and>
        f32_of_u64 (curr_mile w - prev_mile w) = Finite d \<and> 3 \<le> d) \<and>
     (\<forall>s. cache_state_ok s \<longrightarrow>
        (\<exists>s' i. init_cache s = Inr s' \<and> cache_search (cache s') (Finite x) 2 = Inr i \<and>
           (i < MAX_CACHE - 2 \<longrightarrow>
              (\<exists>Fn Fn1 d. cache_read (cache s') (i - 1) = Inr Fn \<and>
                 cache_read (cache s') i = Inr Fn1 \<and>
                 3 \<le> unat (Fn1 - Fn) \<and> f32_of_u64 (Fn1 - Fn) = Finite d \<and> 3 \<le> d))))"
proof (intro conjI allI impI)
  assume x: "5 \<le> x"
  define i where "i = exit_index 93 (Finite x) 3"
  have i: "6 \<le> i" "i \<le> 93"
    using exit_index_ge_6(2) [OF x, of 93] exit_index_le_cap [of 3 93 "Finite x"]
    by (simp_all add: i_def)
  have w: "find_interval (Finite x) walk_init = Some (walk_at (i - 2))"
    using x by (simp add: find_interval_walk_init i_def)
  have "fibw i - fibw (i - 1) = fibw (i - 2)" using i by (intro fibw_diff') simp
  then have d: "curr_mile (walk_at (i - 2)) - prev_mile (walk_at (i - 2)) = fibw (i - 2)"
    using i by (simp add: walk_at_fields)
  have "3 \<le> unat (fibw (i - 2))" using i by (intro unat_fibw_ge_3) simp_all
  with w d f32_of_u64_ge_3 [of "fibw (i - 2)"]
  show "\<exists>w d. find_interval (Finite x) walk_init = Some w \<and>
        3 \<le> unat (curr_mile w - prev_mile w) \<and>
        f32_of_u64 (curr_mile w - prev_mile w) = Finite d \<and> 3 \<le> d"
    by auto
next
  fix s
  assume x: "5 \<le> x" and ok: "cache_state_ok s"
  from init_cache_ok [OF ok] obtain s' where s': "init_cache s = Inr s'" "cache s' = fib_table"
    by blast
  define i where "i = exit_index 92 (Finite x) 2"
  have i: "6 \<le> i" "i \<le> 92"
    using exit_index_ge_6(1) [OF x, of 92] exit_index_le_cap [of 2 92 "Finite x"]
    by (simp_all add: i_def)
  have srch: "cache_search fib_table (Finite x) 2 = Inr (int i)"
    using cache_search_exit [of 92 2 "Finite x"] by (simp add: i_def)
  have "\<exists>Fn Fn1 d. cache_read fib_table (int i - 1) = Inr Fn \<and>
          cache_read fib_table (int i) = Inr Fn1 \<and>
          3 \<le> unat (Fn1 - Fn) \<and> f32_of_u64 (Fn1 - Fn) = Finite d \<and> 3 \<le> d"
    if "int i < MAX_CACHE - 2"
  proof -
    from that have lt: "i < 92" by (simp add: MAX_CACHE_def)
    have r: "cache_read fib_table (int i - 1) = Inr (fibw (i - 1))"
      "cache_read fib_table (int i) = Inr (fibw i)"
      using i lt by (simp_all add: cache_read_fib_table nat_diff_distrib')
    have d: "fibw i - fibw (i - 1) = fibw (i - 2)" using i by (intro fibw_diff') simp
    have "3 \<le> unat (fibw (i - 2))" using i by (intro unat_fibw_ge_3) simp_all
    with r d f32_of_u64_ge_3 [of "fibw (i - 2)"] show ?thesis by auto
  qed
  with s' srch
  show "\<exists>s' i. init_cache s = Inr s' \<and> cache_search (cache s') (Finite x) 2 = Inr i \<and>
           (i < MAX_CACHE - 2 \<longrightarrow>
              (\<exists>Fn Fn1 d. cache_read (cache s') (i - 1) = Inr Fn \<and>
                 cache_read (cache s') i = Inr Fn1 \<and>
                 3 \<le> unat (Fn1 - Fn) \<and> f32_of_u64 (Fn1 - Fn) = Finite d \<and> 3 \<le> d))"
    by auto
qed

theorem interpolation_denominators_witness:
  "find_interval (Finite 10) walk_init =
     Some \<lparr>prev_mile = 8, prev_km = 13, curr_mile = 13, curr_km = 21\<rparr> \<and>
   (\<exists>w d. find_interval (Finite 10) walk_init = Some w \<and>
      3 \<le> unat (curr_mile w - prev_mile w) \<and>
      f32_of_u64 (curr_mile w - prev_mile w) = Finite d \<and> 3 \<le> d) \<and>
   (\<exists>s' i. init_cache cache_state_init = Inr s' \<and>
      cache_search (cache s') (Finite 10) 2 = Inr i \<and>
      (i < MAX_CACHE - 2 \<longrightarrow>
         (\<exists>Fn Fn1 d. cache_read (cache s') (i - 1) = Inr Fn \<and>
            cache_read (cache s') i = Inr Fn1 \<and>
            3 \<le> unat (Fn1 - Fn) \<and> f32_of_u64 (Fn1 - Fn) = Finite d \<and> 3 \<le> d)))"
proof -
  have "find_interval (Finite 10) walk_init =
     Some \<lparr>prev_mile = 8, prev_km = 13, curr_mile = 13, curr_km = 21\<rparr>"
    by (simp add: walk_eval)
  moreover have "(5::real) \<le> 10" by simp
  note interpolation_denominators [OF this]
  ultimately show ?thesis using cache_state_init_ok by blast
qed

section \<open>The exact converter and the low range\<close>

text \<open>
  Claim C1. The exact converter is to return \<open>m * 1.609344\<close> for every finite
  non-negative real \<open>m\<close>, without error conditions. The parameter of
  \<^verbatim>\<open>basic_miles2km\<close> is an \<^verbatim>\<open>int\<close>, so the fraction of the argument is
  lost before the multiplication: 2.5 miles give the result for 2 miles,
  3.2186880111694336, more than 0.8 below 4.02336; and an argument from \<open>2 ^ 31\<close> on
  does not fit the parameter.
\<close>

theorem basic_miles2km_truncates:
  "basic_miles2km_of_float (Finite (5 / 2)) = Inr (Finite (3375039 / 1048576)) \<and>
   basic_miles2km_of_float (Finite (5 / 2)) = Inr (basic_miles2km 2) \<and>
   (5 / 2 * 1609344 / 1000000 - 3375039 / 1048576 :: real) > 8 / 10 \<and>
   basic_miles2km_of_float (Finite 2147483648) = Inl UndefinedConversion"
  by (simp add: basic_miles2km_of_float_def basic_miles2km_def trunc_real_def in_int_range_def
      f32_of_int_def f32_eval)

text \<open>
  Claim C2, as amended. For every \<open>miles < 5\<close>, \<open>fib_interpolate\<close> and
  \<open>fib_cache_convert\<close> return what the call \<^verbatim>\<open>basic_miles2km(miles)\<close> returns.
  \<open>fib_golden_ratio\<close> has no such bypass; it agrees with the exact converter for
  \<open>0 \<le> miles < 1e-5\<close>, where both return 0.
\<close>

theorem low_range_fallback:
  "x < 5 \<Longrightarrow> cache_state_ok s \<Longrightarrow>
     fib_interpolate (Finite x) = Some (basic_miles2km_of_float (Finite x)) \<and>
     fst (fib_cache_convert s (Finite x)) = basic_miles2km_of_float (Finite x) \<and>
     (0 \<le> x \<and> x < 1 / 100000 \<longrightarrow>
        fib_golden_ratio (Finite x) = basic_miles2km_of_float (Finite x))"
proof (intro conjI impI)
  assume x: "x < 5" and ok: "cache_state_ok s"
  show "fib_interpolate (Finite x) = Some (basic_miles2km_of_float (Finite x))"
    using x by (simp add: fib_interpolate_def)
  show "fst (fib_cache_convert s (Finite x)) = basic_miles2km_of_float (Finite x)"
    using x by (simp add: fib_cache_convert_ok [OF ok] cache_convert_fib_table)
next
  assume "0 \<le> x \<and> x < 1 / 100000"
  then have x: "0 \<le> x" "x < 1 / 100000" by simp_all
  then have "\<lfloor>x\<rfloor> = 0" by (simp add: floor_eq_iff)
  then have "basic_miles2km_of_float (Finite x) = Inr (Finite 0)"
    using x by (simp add: basic_miles2km_of_float_def basic_miles2km_def trunc_real_def
        in_int_range_def f32_of_int_def f32_eval)
  moreover have "fib_golden_ratio (Finite x) = Inr (Finite 0)"
    using x by (simp add: fib_golden_ratio.simps dbl_1e_5_def)
  ultimately show "fib_golden_ratio (Finite x) = basic_miles2km_of_float (Finite x)" by simp
qed

theorem low_range_fallback_witness:
  "cache_state_ok cache_state_init \<and>
   fib_interpolate (Finite 3) = Some (Inr (Finite (10125117 / 2097152))) \<and>
   fst (fib_cache_convert cache_state_init (Finite 3)) = Inr (Finite (10125117 / 2097152)) \<and>
   fib_golden_ratio (Finite 0) = basic_miles2km_of_float (Finite 0)"
  using low_range_fallback [of 3 cache_state_init] low_range_fallback [of 0 cache_state_init]
  by (simp add: cache_state_init_ok basic_miles2km_of_float_3)

text \<open>
  Claim C2 as stated fails for \<open>fib_golden_ratio\<close> at \<open>miles = 3\<close>: the index is
  \<open>k = 3\<close>, and the function interpolates between \<open>F 3 = 2\<close>, \<open>F 4 = 3\<close> and
  \<open>F 5 = 5\<close> to 5, where the exact converter returns 4.828032.
\<close>

theorem low_range_fallback_counterexample:
  "fib_golden_ratio (Finite 3) \<noteq> basic_miles2km_of_float (Finite 3)"
  by (simp add: fib_golden_ratio_3 basic_miles2km_of_float_3)

section \<open>The guard of the closed form\<close>

text \<open>
  Claim C8. For every \<open>miles\<close> below \<open>1e-5\<close>, \<open>fib_golden_ratio\<close> returns 0
  before it takes a logarithm; in particular for the \<^verbatim>\<open>float\<close> nearest to
  0.000001.
\<close>

theorem golden_ratio_guard:
  "x < 1 / 100000 \<Longrightarrow> fib_golden_ratio (Finite x) = Inr (Finite 0)"
  by (simp add: fib_golden_ratio.simps dbl_1e_5_def)

theorem golden_ratio_guard_witness:
  "rnd32 (1 / 1000000) = Finite (8796093 / 8796093022208) \<and>
   (8796093 / 8796093022208 :: real) < 1 / 100000 \<and>
   fib_golden_ratio (rnd32 (1 / 1000000)) = Inr (Finite 0)"
proof -
  have r: "rnd32 (1 / 1000000) = Finite (8796093 / 8796093022208)"
    by (simp add: f32_eval)
  have lt: "(8796093 / 8796093022208 :: real) < 1 / 100000" by simp
  from golden_ratio_guard [OF lt] r lt show ?thesis by simp
qed

section \<open>Monotonicity\<close>

text \<open>
  Claim C5, as amended. For all \<open>m1 < m2\<close> in \<open>[0, 93]\<close> the outputs of
  \<open>basic_miles2km\<close> (called with a \<^verbatim>\<open>float\<close>, and on its \<^verbatim>\<open>int\<close>
  parameter), of \<open>fib_interpolate\<close> and of \<open>fib_cache_convert\<close> are finite and
  non-decreasing, \<open>km m1 \<le> km m2\<close>, in \<^verbatim>\<open>float\<close> arithmetic.
  \<open>fib_golden_ratio\<close> is not monotone.
\<close>

theorem monotone_up_to_93:
  "0 \<le> x1 \<Longrightarrow> x1 < x2 \<Longrightarrow> x2 \<le> 93 \<Longrightarrow> cache_state_ok s1 \<Longrightarrow> cache_state_ok s2 \<Longrightarrow>
     (\<exists>y1 y2. basic_miles2km_of_float (Finite x1) = Inr (Finite y1) \<and>
        basic_miles2km_of_float (Finite x2) = Inr (Finite y2) \<and> y1 \<le> y2) \<and>
     (\<exists>y1 y2. fib_interpolate (Finite x1) = Some (Inr (Finite y1)) \<and>
        fib_interpolate (Finite x2) = Some (Inr (Finite y2)) \<and> y1 \<le> y2) \<and>
     (\<exists>y1 y2. fst (fib_cache_convert s1 (Finite x1)) = Inr (Finite y1) \<and>
        fst (fib_cache_convert s2 (Finite x2)) = Inr (Finite y2) \<and> y1 \<le> y2) \<and>
     (\<forall>m1 m2. 0 \<le> m1 \<and> m1 < m2 \<and> m2 \<le> 93 \<longrightarrow>
        (\<exists>y1 y2. basic_miles2km m1 = Finite y1 \<and> basic_miles2km m2 = Finite y2 \<and> y1 \<le> y2))"
proof (intro conjI allI impI)
  assume x: "0 \<le> x1" "x1 < x2" "x2 \<le> 93" and ok: "cache_state_ok s1" "cache_state_ok s2"
  have r: "0 \<le> x2" "x1 \<le> x2" "x1 \<le> 1024" "x2 \<le> 1024" "x1 < 144" "x2 < 144"
    using x by simp_all
  have "basic_val x1 \<le> basic_val x2" using x(1) r(2) by (rule basic_val_mono)
  then show "\<exists>y1 y2. basic_miles2km_of_float (Finite x1) = Inr (Finite y1) \<and>
        basic_miles2km_of_float (Finite x2) = Inr (Finite y2) \<and> y1 \<le> y2"
    using x(1) r by (simp add: basic_miles2km_of_float_val)
  have km: "km_val x1 \<le> km_val x2" using x(1) r(2) r(6) by (rule km_val_mono)
  have i: "fib_interpolate (Finite x1) = Some (Inr (Finite (km_val x1)))"
    "fib_interpolate (Finite x2) = Some (Inr (Finite (km_val x2)))"
    using x(1) r by (simp_all add: fib_interpolate_km)
  with km show "\<exists>y1 y2. fib_interpolate (Finite x1) = Some (Inr (Finite y1)) \<and>
        fib_interpolate (Finite x2) = Some (Inr (Finite y2)) \<and> y1 \<le> y2"
    by simp
  have "x1 < 4660046388107673600" "x2 < 4660046388107673600" using r by simp_all
  then have "fib_interpolate (Finite x1) = Some (fst (fib_cache_convert s1 (Finite x1)))"
    "fib_interpolate (Finite x2) = Some (fst (fib_cache_convert s2 (Finite x2)))"
    using ok by (auto intro: interpolate_eq_cache_convert)
  with i km show "\<exists>y1 y2. fst (fib_cache_convert s1 (Finite x1)) = Inr (Finite y1) \<and>
        fst (fib_cache_convert s2 (Finite x2)) = Inr (Finite y2) \<and> y1 \<le> y2"
    by simp
next
  fix m1 m2 :: int
  assume m: "0 \<le> m1 \<and> m1 < m2 \<and> m2 \<le> 93"
  then have "basic_val (of_int m1) \<le> basic_val (of_int m2)"
    by (intro basic_val_mono) simp_all
  moreover have "basic_miles2km m1 = Finite (basic_val (of_int m1))"
    "basic_miles2km m2 = Finite (basic_val (of_int m2))"
    using m by (simp_all add: basic_miles2km_val basic_val_def)
  ultimately show "\<exists>y1 y2. basic_miles2km m1 = Finite y1 \<and> basic_miles2km m2 = Finite y2 \<and> y1 \<le> y2"
    by simp
qed

theorem monotone_up_to_93_witness:
  "(0::real) \<le> 9 / 2 \<and> (9 / 2 :: real) < 10 \<and> (10::real) \<le> 93 \<and>
   cache_state_ok cache_state_init \<and>
   fib_interpolate (Finite (9 / 2)) = Some (Inr (Finite (3375039 / 524288))) \<and>
   fib_interpolate (Finite 10) = Some (Inr (Finite (4246733 / 262144))) \<and>
   (\<exists>y1 y2. fib_interpolate (Finite (9 / 2)) = Some (Inr (Finite y1)) \<and>
      fib_interpolate (Finite 10) = Some (Inr (Finite y2)) \<and> y1 \<le> y2) \<and>
   (\<exists>y1 y2. fst (fib_cache_convert cache_state_init (Finite (9 / 2))) = Inr (Finite y1) \<and>
      fst (fib_cache_convert cache_state_init (Finite 10)) = Inr (Finite y2) \<and> y1 \<le> y2) \<and>
   (\<exists>y1 y2. basic_miles2km 4 = Finite y1 \<and> basic_miles2km 10 = Finite y2 \<and> y1 \<le> y2)"
proof -
  have h: "(0::real) \<le> 9 / 2" "(9 / 2 :: real) < 10" "(10::real) \<le> 93" by simp_all
  note m = monotone_up_to_93 [OF h cache_state_init_ok cache_state_init_ok]
  have "fib_interpolate (Finite (9 / 2)) = Some (Inr (Finite (3375039 / 524288)))"
    by (simp add: fib_interpolate_def basic_miles2km_of_float_def basic_miles2km_def
        trunc_real_def in_int_range_def f32_of_int_def f32_eval)
  moreover from m have "\<exists>y1 y2. basic_miles2km 4 = Finite y1 \<and> basic_miles2km 10 = Finite y2 \<and> y1 \<le> y2"
    by simp
  ultimately show ?thesis
    using m h cache_state_init_ok fib_interpolate_samples(2) by blast
qed

text \<open>
  Claim C5 as stated fails for \<open>fib_golden_ratio\<close>: the function changes its bracket
  where \<open>miles * sqrt 5\<close> passes a power of the golden ratio, near 4.9597, not at a
  Fibonacci number, and the value drops there: 4.95703125 miles give 7.935546875 and
  4.9609375 miles give 7.934895992279053.
\<close>

theorem monotonicity_counterexample:
  "fib_golden_ratio (Finite (1269 / 256)) = Inr (Finite (4063 / 512)) \<and>
   fib_golden_ratio (Finite (635 / 128)) = Inr (Finite (16640683 / 2097152)) \<and>
   (0 :: real) \<le> 1269 / 256 \<and> (1269 / 256 :: real) < 635 / 128 \<and> (635 / 128 :: real) \<le> 93 \<and>
   \<not> f32_le (Finite (4063 / 512)) (Finite (16640683 / 2097152))"
  by (simp add: fib_golden_ratio_left fib_golden_ratio_right)

end
